theory Spec2Isabelle
  imports Complex_Main "HOL-Library.Word" "HOL-Library.Multiset" "HOL-Library.Log_Nat"
begin

section \<open>The load engine of lib/burn.go\<close>

text \<open>
  The file \<^verbatim>\<open>lib/burn.go\<close> holds a rate-controlled load generator: \<^verbatim>\<open>GenBurner\<close>
  builds a \<^verbatim>\<open>Burner\<close>, \<^verbatim>\<open>Burn\<close> starts worker goroutines and one scheduler
  goroutine that hands ticks to them, \<^verbatim>\<open>Stop\<close> raises the cancellation signal,
  \<^verbatim>\<open>burn\<close> is the worker loop and \<^verbatim>\<open>hit\<close> performs one invocation.

  Sequential code is embedded as functions. The goroutines of \<^verbatim>\<open>Burn\<close> are embedded as
  a labelled transition system: a state record, and a function \<open>step\<close> that executes one
  atomic action of one goroutine, named by an event. The event carries everything the
  environment decides (clock readings, the outcome of an invocation, the branch a
  \<^verbatim>\<open>select\<close> takes); \<open>step\<close> returns \<open>None\<close> where Go's semantics does not allow
  the action in that state.
\<close>

subsection \<open>Time\<close>

text \<open>
  A \<^verbatim>\<open>time.Time\<close> is a reading of the monotonic clock in nanoseconds, a
  \<^verbatim>\<open>time.Duration\<close> is a signed 64-bit count of nanoseconds. \<^verbatim>\<open>Time.Sub\<close> saturates at
  the least and greatest \<^verbatim>\<open>Duration\<close>; \<^verbatim>\<open>Time.Add\<close> is addition.
\<close>

type_synonym u64 = "64 word"

definition maxDuration :: int where
  "maxDuration = 2 ^ 63 - 1"

definition minDuration :: int where
  "minDuration = - (2 ^ 63)"

definition time_Sub :: "int \<Rightarrow> int \<Rightarrow> int" where
  "time_Sub t u = (if t - u > maxDuration then maxDuration
                   else if t - u < minDuration then minDuration
                   else t - u)"

definition time_Add :: "int \<Rightarrow> int \<Rightarrow> int" where
  "time_Add t d = t + d"

text \<open>
  \<^verbatim>\<open>du.Seconds()\<close> is \<^verbatim>\<open>float64(sec) + float64(nsec)/1e9\<close>, with \<^verbatim>\<open>sec := d / Second\<close> and
  \<^verbatim>\<open>nsec := d % Second\<close> (both truncated towards zero). A \<^verbatim>\<open>float64\<close> is modelled as the
  real number it stands for, and an operation as the exact result rounded to the nearest
  number with a 53-bit significand, ties to the even significand: \<open>f64\<close>. The
  conversions of \<^verbatim>\<open>sec\<close> and \<^verbatim>\<open>nsec\<close> are exact, the division and the sum are rounded.
  (The exponent range of \<^verbatim>\<open>float64\<close> is not modelled: the quotients and sums of
  \<^verbatim>\<open>Seconds\<close> lie between \<open>10^-9\<close> and \<open>10^10\<close> in absolute value, or are 0.)
\<close>

definition pow2 :: "int \<Rightarrow> real" where
  "pow2 k = (if 0 \<le> k then 2 ^ nat k else 1 / 2 ^ nat (- k))"

text \<open>The exponent \<open>e\<close> of a positive real \<open>x\<close>: \<open>2^e \<le> x < 2^(e+1)\<close>.\<close>

definition f64_exponent :: "real \<Rightarrow> int" where
  "f64_exponent x = (if 1 \<le> x then bitlen \<lfloor>x\<rfloor> - 1 else - bitlen (\<lceil>1 / x\<rceil> - 1))"

definition round_even :: "real \<Rightarrow> int" where
  "round_even q =
     (let n = \<lfloor>q\<rfloor>; r = q - of_int n
      in if r < 1 / 2 then n else if 1 / 2 < r then n + 1 else if even n then n else n + 1)"

definition f64 :: "real \<Rightarrow> real" where
  "f64 x =
     (if x = 0 then 0
      else let u = pow2 (f64_exponent \<bar>x\<bar> - 52)
           in sgn x * (of_int (round_even (\<bar>x\<bar> / u)) * u))"

definition Duration_Seconds :: "int \<Rightarrow> real" where
  "Duration_Seconds d =
     (let sec = sgn d * (\<bar>d\<bar> div 1000000000);
          nsec = sgn d * (\<bar>d\<bar> mod 1000000000)
      in f64 (of_int sec + f64 (of_int nsec / 1000000000)))"

text \<open>
  \<^verbatim>\<open>uint64(x)\<close> for a \<^verbatim>\<open>float64\<close>: the fraction is dropped, towards zero. When the
  result is not a \<^verbatim>\<open>uint64\<close> (here: for a duration of minus one second or less), Go leaves
  the value to the implementation; it is left unspecified, and nothing is proved about
  it.
\<close>

definition uint64_unspecified :: "real \<Rightarrow> u64" where
  "uint64_unspecified = undefined"

definition uint64_of_f64 :: "real \<Rightarrow> u64" where
  "uint64_of_f64 x =
     (let t = (if 0 \<le> x then \<lfloor>x\<rfloor> else \<lceil>x\<rceil>)
      in if 0 \<le> t \<and> t < 2 ^ 64 then word_of_int t else uint64_unspecified x)"

definition Seconds_u64 :: "int \<Rightarrow> u64" where
  "Seconds_u64 du = uint64_of_f64 (Duration_Seconds du)"

text \<open>
  Modelled from the spec: the helper \<^verbatim>\<open>max\<close> on two instants that \<^verbatim>\<open>Burn\<close> calls is not
  in the source file; the spec has the tick "timestamped as max(intended, now)".
\<close>

definition max_time :: "int \<Rightarrow> int \<Rightarrow> int" where
  "max_time a b = (if a > b then a else b)"

subsection \<open>Data\<close>

record GTargeter =
  Target :: string
  IsEtcd :: bool
  MethodName :: string

datatype ClientConn = ClientConn string

datatype chan_state = Nil_chan | Open_chan | Closed_chan

record Burner =
  Conn :: ClientConn
  Workers :: u64
  stopch :: chan_state

text \<open>
  Modelled from the spec: the declaration of \<^verbatim>\<open>Result\<close> is not in the source file;
  \<^verbatim>\<open>hit\<close> assigns its fields \<^verbatim>\<open>Timestamp\<close>, \<^verbatim>\<open>Latency\<close> and \<^verbatim>\<open>Error\<close>, the spec has
  "{timestamp, latency, error}".
\<close>

record Result =
  Timestamp :: int
  Latency :: int
  Error :: string

datatype panic =
    Divide_by_zero
  | Close_of_nil_channel
  | Close_of_closed_channel
  | Send_on_closed_channel
  | Nil_dereference

subsection \<open>GenBurner and Stop\<close>

text \<open>
  \<^verbatim>\<open>GenBurner\<close>: the outcome of \<^verbatim>\<open>grpc.Dial\<close> (an error message or a connection), of the
  health check (an error or none) and the value of \<^verbatim>\<open>runtime.NumCPU()\<close> are arguments.
  The literal that builds the \<^verbatim>\<open>Burner\<close> sets \<^verbatim>\<open>Conn\<close>, \<^verbatim>\<open>Workers\<close> and \<^verbatim>\<open>Ctx\<close>; the
  field \<^verbatim>\<open>stopch\<close> keeps its zero value, the nil channel.
\<close>

definition GenBurner ::
  "GTargeter \<Rightarrow> string + ClientConn \<Rightarrow> string option \<Rightarrow> int \<Rightarrow> string + Burner" where
  "GenBurner t dialed checkErr numCPU =
     (if IsEtcd t then Inl ''Etcd is not supported yet''
      else case dialed of
        Inl err \<Rightarrow> Inl err
      | Inr c \<Rightarrow>
          (case checkErr of
             Some _ \<Rightarrow> Inl ''Not Healthy''
           | None \<Rightarrow> Inr \<lparr>Conn = c, Workers = word_of_int numCPU, stopch = Nil_chan\<rparr>))"

text \<open>
  \<^verbatim>\<open>Stop\<close> on a channel state, for a call that no other call of \<^verbatim>\<open>Stop\<close> overlaps: a
  receive from a closed channel is ready, so the first case returns; a receive from an
  open or a nil channel is not ready, so the default case runs \<^verbatim>\<open>close\<close>, which panics
  on the nil channel. (In the transition system below a call is two actions,
  \<open>call_Stop\<close> and \<open>stop_closes\<close>.)
\<close>

definition Stop_chan :: "chan_state \<Rightarrow> panic + chan_state" where
  "Stop_chan c =
     (case c of
        Closed_chan \<Rightarrow> Inr Closed_chan
      | Open_chan \<Rightarrow> Inr Closed_chan
      | Nil_chan \<Rightarrow> Inl Close_of_nil_channel)"

definition Stop :: "Burner \<Rightarrow> panic + Burner" where
  "Stop b = (case Stop_chan (stopch b) of
               Inl p \<Rightarrow> Inl p
             | Inr c \<Rightarrow> Inr (b\<lparr>stopch := c\<rparr>))"

subsection \<open>hit\<close>

text \<open>
  \<^verbatim>\<open>hit tgt tm\<close>, when \<^verbatim>\<open>Conn.Invoke\<close> returns: the target only reaches that call into
  the gRPC library. Its outcome (an error message or none) and the clock reading of
  \<^verbatim>\<open>time.Since\<close> in the deferred function are arguments. (When \<^verbatim>\<open>Invoke\<close> panics,
  \<^verbatim>\<open>hit\<close> returns nothing: that is the action \<open>worker_hit_panics\<close> of the worker below.)
  The outer variable \<^verbatim>\<open>err\<close> is never assigned (the \<^verbatim>\<open>if\<close> declares its own), so the
  deferred function only sets \<^verbatim>\<open>Latency\<close>; it runs after \<^verbatim>\<open>&res\<close> has been evaluated
  and writes to the same variable, so the caller sees the latency.
\<close>

definition hit :: "int \<Rightarrow> string option \<Rightarrow> int \<Rightarrow> Result" where
  "hit tm invoked finished =
     (let res = \<lparr>Timestamp = tm, Latency = 0, Error = []\<rparr>;
          res = (case invoked of Some msg \<Rightarrow> res\<lparr>Error := msg\<rparr> | None \<Rightarrow> res)
      in res\<lparr>Latency := time_Sub finished tm\<rparr>)"

subsection \<open>The scheduler's arithmetic\<close>

text \<open>
  \<^verbatim>\<open>interval := 1e9 / rate\<close> and \<^verbatim>\<open>hits := rate * uint64(du.Seconds())\<close> are unsigned
  64-bit; the division panics for \<^verbatim>\<open>rate = 0\<close>, which \<open>sched_start\<close> below tests before
  anything else. The intended instant is \<^verbatim>\<open>began.Add(time.Duration(done*interval))\<close>:
  the product wraps and the conversion reads it as signed.
\<close>

definition interval_of :: "u64 \<Rightarrow> u64" where
  "interval_of rate = 1000000000 div rate"

definition hits_of :: "u64 \<Rightarrow> int \<Rightarrow> u64" where
  "hits_of rate du = rate * Seconds_u64 du"

definition next_of :: "u64 \<Rightarrow> int \<Rightarrow> u64 \<Rightarrow> int" where
  "next_of rate t0 d = time_Add t0 (sint (d * interval_of rate))"

subsection \<open>The goroutines of Burn\<close>

text \<open>
  A worker runs \<^verbatim>\<open>burn\<close>: \<^verbatim>\<open>for tm := range ticks { results <- b.hit(tgt, tm) }\<close>,
  with \<^verbatim>\<open>workers.Done()\<close> deferred. Its control points:
  \<^item> \<open>At_range\<close>: about to receive from \<^verbatim>\<open>ticks\<close>;
  \<^item> \<open>Parked\<close>: blocked in the receive, so that a send on \<^verbatim>\<open>ticks\<close> can proceed;
  \<^item> \<open>Hitting tm\<close>: inside \<^verbatim>\<open>hit\<close> with the tick \<open>tm\<close>;
  \<^item> \<open>Sending r\<close>: blocked in the send of \<open>r\<close> on \<^verbatim>\<open>results\<close>;
  \<^item> \<open>Exited\<close>: returned, \<^verbatim>\<open>workers.Done()\<close> has run;
  \<^item> \<open>Panicking tm\<close>: \<^verbatim>\<open>Invoke\<close> has panicked inside \<^verbatim>\<open>hit\<close> with the tick \<open>tm\<close>, the
    deferred calls of \<^verbatim>\<open>hit\<close> and of \<^verbatim>\<open>burn\<close> (\<^verbatim>\<open>workers.Done()\<close>) have run, and the
    goroutine is about to end the program, since nothing recovers.
\<close>

datatype worker = At_range | Parked | Hitting int | Sending Result | Exited | Panicking int

text \<open>
  The scheduler goroutine: before its first statement (\<open>Sched_init\<close>), at the top of
  the loop (\<open>Looping\<close>), between the reading of \<^verbatim>\<open>time.Now()\<close> and the \<^verbatim>\<open>select\<close>
  (\<open>Selecting\<close>, with the reading in \<open>now_r\<close>), and then the three deferred calls
  in the order they run, last deferred first: \<^verbatim>\<open>close(ticks)\<close>, \<^verbatim>\<open>workers.Wait()\<close>,
  \<^verbatim>\<open>close(results)\<close>.
\<close>

datatype phase =
    Sched_init
  | Looping
  | Selecting
  | Deferred_close_ticks
  | Deferred_wait
  | Deferred_close_results
  | Ended

text \<open>How the scheduler left its loop: the two \<^verbatim>\<open>return\<close> statements, or a panic.\<close>

datatype loop_exit = Hits_reached | Stop_observed | Panicked panic

record state =
  phase :: phase
  began :: int
  done_n :: u64
  now_r :: int
  loop_exit :: "loop_exit option"
  workers :: "worker list"
  wg :: int
  ticks_closed :: bool
  results_closed :: bool
  stop_chan :: chan_state
  stoppers :: nat
  clock :: int
  ticks_log :: "int list"
  results_log :: "Result list"
  crashed :: "panic option"

text \<open>
  \<open>ticks_log\<close> is the sequence of values sent on \<^verbatim>\<open>ticks\<close>, \<open>results_log\<close> the sequence
  of Results the caller has received from the returned channel, \<open>clock\<close> the latest
  reading of the monotonic clock, \<open>wg\<close> the counter of the \<^verbatim>\<open>WaitGroup\<close>, \<open>stoppers\<close>
  the number of calls of \<^verbatim>\<open>Stop\<close> that have taken the default case of their \<^verbatim>\<open>select\<close>
  and have not yet run \<^verbatim>\<open>close(b.stopch)\<close>. A panic that no goroutine recovers ends the
  program: \<open>crashed\<close>.

  \<^verbatim>\<open>Burn\<close> itself makes the two channels, adds \<^verbatim>\<open>b.Workers\<close> to the \<^verbatim>\<open>WaitGroup\<close>,
  starts as many workers and the scheduler, and returns \<^verbatim>\<open>results\<close>.
\<close>

definition Burn :: "Burner \<Rightarrow> state" where
  "Burn b =
     \<lparr>phase = Sched_init, began = 0, done_n = 0, now_r = 0, loop_exit = None,
      workers = replicate (unat (Workers b)) At_range,
      wg = int (unat (Workers b)),
      ticks_closed = False, results_closed = False,
      stop_chan = stopch b, stoppers = 0, clock = 0,
      ticks_log = [], results_log = [], crashed = None\<rparr>"

datatype select_case = Send_tick nat | Stop_case | Default_case

datatype event =
    Sched_start int
  | Sched_now int
  | Sched_select int select_case
  | Sched_close_ticks
  | Sched_wait_returns
  | Sched_close_results
  | Worker_park nat
  | Worker_hit_done nat "string option" int
  | Worker_hit_panics nat
  | Worker_crash nat
  | Worker_deliver nat
  | Worker_exit nat
  | Call_Stop
  | Stop_closes

text \<open>
  The first statements of the scheduler: \<^verbatim>\<open>interval := 1e9 / rate\<close> panics for
  \<^verbatim>\<open>rate = 0\<close>, and the deferred calls run; otherwise \<^verbatim>\<open>began\<close> is the clock reading
  \<open>t\<close> and \<^verbatim>\<open>done\<close> is 0.
\<close>

definition sched_start :: "u64 \<Rightarrow> state \<Rightarrow> int \<Rightarrow> state option" where
  "sched_start rate s t =
     (if phase s \<noteq> Sched_init then None
      else if rate = 0 then
        Some (s\<lparr>phase := Deferred_close_ticks, loop_exit := Some (Panicked Divide_by_zero)\<rparr>)
      else if t < clock s then None
      else Some (s\<lparr>phase := Looping, began := t, done_n := 0, clock := t\<rparr>))"

text \<open>
  One pass of the loop, in two actions. First \<^verbatim>\<open>time.Now()\<close> is read: \<open>now\<close>. Then
  \<^verbatim>\<open>time.Sleep\<close> returns at the clock reading \<open>woke\<close> (it sleeps at least the duration
  asked for, and not at all for a negative one) and the \<^verbatim>\<open>select\<close> runs:
  \<^item> the send on \<^verbatim>\<open>ticks\<close> can proceed when a worker is parked in the receive;
  \<^item> the receive from \<^verbatim>\<open>stopch\<close> can proceed when that channel is closed (never on
    the nil channel);
  \<^item> the default case runs only when neither can proceed.
  When both can proceed, Go chooses one of them at random: both events are enabled.
\<close>

definition sched_now :: "state \<Rightarrow> int \<Rightarrow> state option" where
  "sched_now s now =
     (if phase s \<noteq> Looping \<or> now < clock s then None
      else Some (s\<lparr>phase := Selecting, now_r := now, clock := now\<rparr>))"

definition sched_select :: "u64 \<Rightarrow> int \<Rightarrow> state \<Rightarrow> int \<Rightarrow> select_case \<Rightarrow> state option" where
  "sched_select rate du s woke c =
     (let hits = hits_of rate du;
          now = now_r s;
          nxt = next_of rate (began s) (done_n s);
          slept = time_Sub nxt now
      in if phase s \<noteq> Selecting \<or> woke < clock s \<or> woke < now + slept then None
         else case c of
           Send_tick w \<Rightarrow>
             if w < length (workers s) \<and> workers s ! w = Parked then
               (let s1 = s\<lparr>clock := woke,
                           workers := (workers s)[w := Hitting (max_time nxt now)],
                           ticks_log := ticks_log s @ [max_time nxt now],
                           done_n := done_n s + 1\<rparr>
                in if done_n s1 = hits
                   then Some (s1\<lparr>phase := Deferred_close_ticks, loop_exit := Some Hits_reached\<rparr>)
                   else Some (s1\<lparr>phase := Looping\<rparr>))
             else None
         | Stop_case \<Rightarrow>
             if stop_chan s = Closed_chan
             then Some (s\<lparr>clock := woke, phase := Deferred_close_ticks,
                          loop_exit := Some Stop_observed\<rparr>)
             else None
         | Default_case \<Rightarrow>
             if Parked \<notin> set (workers s) \<and> stop_chan s \<noteq> Closed_chan
             then Some (s\<lparr>clock := woke, phase := Looping, wg := wg s + 1,
                          workers := workers s @ [At_range]\<rparr>)
             else None)"

text \<open>
  The deferred calls. Closing a closed channel panics. \<^verbatim>\<open>workers.Wait()\<close> returns when
  the counter is 0. After the last deferred call a panicking goroutine ends the program.
\<close>

definition sched_close_ticks :: "state \<Rightarrow> state option" where
  "sched_close_ticks s =
     (if phase s \<noteq> Deferred_close_ticks then None
      else if ticks_closed s then Some (s\<lparr>crashed := Some Close_of_closed_channel\<rparr>)
      else Some (s\<lparr>ticks_closed := True, phase := Deferred_wait\<rparr>))"

definition sched_wait_returns :: "state \<Rightarrow> state option" where
  "sched_wait_returns s =
     (if phase s \<noteq> Deferred_wait \<or> wg s \<noteq> 0 then None
      else Some (s\<lparr>phase := Deferred_close_results\<rparr>))"

definition sched_close_results :: "state \<Rightarrow> state option" where
  "sched_close_results s =
     (if phase s \<noteq> Deferred_close_results then None
      else if results_closed s then Some (s\<lparr>crashed := Some Close_of_closed_channel\<rparr>)
      else Some (s\<lparr>results_closed := True, phase := Ended,
                   crashed := (case loop_exit s of Some (Panicked p) \<Rightarrow> Some p | _ \<Rightarrow> None)\<rparr>))"

text \<open>
  The worker. It parks in the receive while \<^verbatim>\<open>ticks\<close> is open, and leaves the loop when
  \<^verbatim>\<open>ticks\<close> is closed. The send on \<^verbatim>\<open>results\<close> proceeds when the caller receives; on a
  closed channel it panics.

  \<^verbatim>\<open>Conn.Invoke\<close> is a call into the gRPC library, whose code is not part of this
  file: whether it returns nil, returns an error or panics is decided by the
  environment. \<^verbatim>\<open>hit\<close> passes it a literal \<^verbatim>\<open>nil\<close> as its variadic \<^verbatim>\<open>CallOption\<close>
  argument, that is a slice holding one nil interface value; a library that calls a
  method of each option panics there with a nil dereference.
  \<^item> \<open>worker_hit_done\<close>: \<^verbatim>\<open>Invoke\<close> returns, and \<^verbatim>\<open>hit\<close> returns the Result;
  \<^item> \<open>worker_hit_panics\<close>: \<^verbatim>\<open>Invoke\<close> panics; the deferred function of \<^verbatim>\<open>hit\<close> runs
    (it writes to a Result that nobody receives), then the deferred
    \<^verbatim>\<open>workers.Done()\<close> of \<^verbatim>\<open>burn\<close>; no Result is sent;
  \<^item> \<open>worker_crash\<close>: the panicking goroutine has no deferred call left, and the
    program ends. Until then the other goroutines run on.
\<close>

definition worker_park :: "state \<Rightarrow> nat \<Rightarrow> state option" where
  "worker_park s w =
     (if w < length (workers s) \<and> workers s ! w = At_range \<and> \<not> ticks_closed s
      then Some (s\<lparr>workers := (workers s)[w := Parked]\<rparr>)
      else None)"

definition worker_exit :: "state \<Rightarrow> nat \<Rightarrow> state option" where
  "worker_exit s w =
     (if w < length (workers s) \<and> (workers s ! w = At_range \<or> workers s ! w = Parked)
         \<and> ticks_closed s
      then Some (s\<lparr>workers := (workers s)[w := Exited], wg := wg s - 1\<rparr>)
      else None)"

definition worker_hit_done :: "state \<Rightarrow> nat \<Rightarrow> string option \<Rightarrow> int \<Rightarrow> state option" where
  "worker_hit_done s w invoked t =
     (if w < length (workers s) \<and> clock s \<le> t then
        (case workers s ! w of
           Hitting tm \<Rightarrow>
             Some (s\<lparr>workers := (workers s)[w := Sending (hit tm invoked t)], clock := t\<rparr>)
         | _ \<Rightarrow> None)
      else None)"

definition worker_hit_panics :: "state \<Rightarrow> nat \<Rightarrow> state option" where
  "worker_hit_panics s w =
     (if w < length (workers s) then
        (case workers s ! w of
           Hitting tm \<Rightarrow>
             Some (s\<lparr>workers := (workers s)[w := Panicking tm], wg := wg s - 1\<rparr>)
         | _ \<Rightarrow> None)
      else None)"

definition worker_crash :: "state \<Rightarrow> nat \<Rightarrow> state option" where
  "worker_crash s w =
     (if w < length (workers s) then
        (case workers s ! w of
           Panicking tm \<Rightarrow> Some (s\<lparr>crashed := Some Nil_dereference\<rparr>)
         | _ \<Rightarrow> None)
      else None)"

definition worker_deliver :: "state \<Rightarrow> nat \<Rightarrow> state option" where
  "worker_deliver s w =
     (if w < length (workers s) then
        (case workers s ! w of
           Sending r \<Rightarrow>
             if results_closed s then Some (s\<lparr>crashed := Some Send_on_closed_channel\<rparr>)
             else Some (s\<lparr>workers := (workers s)[w := At_range],
                          results_log := results_log s @ [r]\<rparr>)
         | _ \<Rightarrow> None)
      else None)"

text \<open>
  A call of \<^verbatim>\<open>Stop\<close> from any goroutine, on the channel of the Burner, in two actions,
  so that calls can overlap. First the \<^verbatim>\<open>select\<close>: on a closed channel the receive is
  ready and the call returns; otherwise the default case is taken. Then
  \<^verbatim>\<open>close(b.stopch)\<close>, by a call that has taken the default case: it panics on the nil
  channel, and on a channel that another call has closed in between.
\<close>

definition call_Stop :: "state \<Rightarrow> state option" where
  "call_Stop s =
     (if stop_chan s = Closed_chan then Some s
      else Some (s\<lparr>stoppers := stoppers s + 1\<rparr>))"

definition stop_closes :: "state \<Rightarrow> state option" where
  "stop_closes s =
     (if stoppers s = 0 then None
      else case stop_chan s of
        Nil_chan \<Rightarrow> Some (s\<lparr>crashed := Some Close_of_nil_channel\<rparr>)
      | Closed_chan \<Rightarrow> Some (s\<lparr>crashed := Some Close_of_closed_channel\<rparr>)
      | Open_chan \<Rightarrow> Some (s\<lparr>stop_chan := Closed_chan, stoppers := stoppers s - 1\<rparr>))"

text \<open>One action; nothing runs after the program has crashed.\<close>

definition step :: "u64 \<Rightarrow> int \<Rightarrow> state \<Rightarrow> event \<Rightarrow> state option" where
  "step rate du s e =
     (if crashed s \<noteq> None then None
      else case e of
        Sched_start t \<Rightarrow> sched_start rate s t
      | Sched_now now \<Rightarrow> sched_now s now
      | Sched_select woke c \<Rightarrow> sched_select rate du s woke c
      | Sched_close_ticks \<Rightarrow> sched_close_ticks s
      | Sched_wait_returns \<Rightarrow> sched_wait_returns s
      | Sched_close_results \<Rightarrow> sched_close_results s
      | Worker_park w \<Rightarrow> worker_park s w
      | Worker_hit_done w invoked t \<Rightarrow> worker_hit_done s w invoked t
      | Worker_hit_panics w \<Rightarrow> worker_hit_panics s w
      | Worker_crash w \<Rightarrow> worker_crash s w
      | Worker_deliver w \<Rightarrow> worker_deliver s w
      | Worker_exit w \<Rightarrow> worker_exit s w
      | Call_Stop \<Rightarrow> call_Stop s
      | Stop_closes \<Rightarrow> stop_closes s)"

text \<open>A run: the events of an interleaving, in order.\<close>

fun run :: "u64 \<Rightarrow> int \<Rightarrow> state \<Rightarrow> event list \<Rightarrow> state option" where
  "run rate du s [] = Some s"
| "run rate du s (e # es) =
     (case step rate du s e of None \<Rightarrow> None | Some s' \<Rightarrow> run rate du s' es)"

subsection \<open>Invariants of the runs\<close>

text \<open>
  The number of ticks after which the test \<^verbatim>\<open>done == hits\<close> holds for the first time:
  \<^verbatim>\<open>hits\<close> itself, or \<open>2 ^ 64\<close> for \<^verbatim>\<open>hits = 0\<close>, when the counter has wrapped
  around.
\<close>

definition hits_bound :: "u64 \<Rightarrow> int \<Rightarrow> nat" where
  "hits_bound rate du = (if hits_of rate du = 0 then 2 ^ 64 else unat (hits_of rate du))"

text \<open>
  The ticks that workers hold (inside \<^verbatim>\<open>hit\<close>, in a Result not yet received, or lost
  in a panic), the number of workers that have not run \<^verbatim>\<open>workers.Done()\<close>, and the
  invariants: of the shutdown, of the Results, of the clock, of the counter and of the
  intended instants.
\<close>

fun pending :: "worker \<Rightarrow> int multiset" where
  "pending (Hitting tm) = {#tm#}"
| "pending (Sending r) = {#Timestamp r#}"
| "pending (Panicking tm) = {#tm#}"
| "pending _ = {#}"

definition in_flight :: "worker list \<Rightarrow> int multiset" where
  "in_flight ws = sum_list (map pending ws)"

fun alive :: "worker \<Rightarrow> nat" where
  "alive Exited = 0"
| "alive (Panicking tm) = 0"
| "alive _ = 1"

definition live :: "worker list \<Rightarrow> nat" where
  "live ws = sum_list (map alive ws)"

fun tick_of :: "worker \<Rightarrow> int option" where
  "tick_of (Hitting tm) = Some tm"
| "tick_of _ = None"

definition ticks_below :: "int list \<Rightarrow> worker list \<Rightarrow> int \<Rightarrow> bool" where
  "ticks_below ts ws c \<longleftrightarrow>
     (\<forall>t \<in> set ts. t \<le> c) \<and> (\<forall>w \<in> set ws. \<forall>tm. tick_of w = Some tm \<longrightarrow> tm \<le> c)"

fun after_close_ticks :: "phase \<Rightarrow> bool" where
  "after_close_ticks Deferred_wait = True"
| "after_close_ticks Deferred_close_results = True"
| "after_close_ticks Ended = True"
| "after_close_ticks _ = False"

fun after_wait :: "phase \<Rightarrow> bool" where
  "after_wait Deferred_close_results = True"
| "after_wait Ended = True"
| "after_wait _ = False"

fun in_loop :: "phase \<Rightarrow> bool" where
  "in_loop Looping = True"
| "in_loop Selecting = True"
| "in_loop _ = False"

definition inv_shutdown :: "state \<Rightarrow> bool" where
  "inv_shutdown s \<longleftrightarrow>
     wg s = int (live (workers s)) \<and>
     ticks_closed s = after_close_ticks (phase s) \<and>
     results_closed s = (phase s = Ended) \<and>
     (after_wait (phase s) \<longrightarrow> live (workers s) = 0) \<and>
     (\<not> ticks_closed s \<longrightarrow> Exited \<notin> set (workers s)) \<and>
     (\<forall>p. loop_exit s = Some (Panicked p) \<longrightarrow> p = Divide_by_zero) \<and>
     crashed s \<noteq> Some Send_on_closed_channel"

definition inv_results :: "state \<Rightarrow> bool" where
  "inv_results s \<longleftrightarrow>
     mset (ticks_log s) = mset (map Timestamp (results_log s)) + in_flight (workers s)"

definition inv_clock :: "state \<Rightarrow> bool" where
  "inv_clock s \<longleftrightarrow>
     sorted (ticks_log s) \<and>
     ticks_below (ticks_log s) (workers s) (clock s) \<and>
     (phase s = Looping \<longrightarrow> began s \<le> clock s) \<and>
     (phase s = Selecting \<longrightarrow>
        began s \<le> now_r s \<and> now_r s \<le> clock s \<and> (\<forall>t \<in> set (ticks_log s). t \<le> now_r s))"

definition inv_count :: "u64 \<Rightarrow> int \<Rightarrow> state \<Rightarrow> bool" where
  "inv_count rate du s \<longleftrightarrow>
     (phase s = Sched_init \<longrightarrow> ticks_log s = []) \<and>
     (loop_exit s = None) = (phase s = Sched_init \<or> in_loop (phase s)) \<and>
     (in_loop (phase s) \<longrightarrow>
        rate \<noteq> 0 \<and> done_n s = of_nat (length (ticks_log s)) \<and>
        length (ticks_log s) < hits_bound rate du) \<and>
     (loop_exit s = Some Hits_reached \<longrightarrow>
        rate \<noteq> 0 \<and> length (ticks_log s) = hits_bound rate du) \<and>
     (loop_exit s = Some Stop_observed \<longrightarrow> rate \<noteq> 0 \<and> stop_chan s = Closed_chan) \<and>
     (\<forall>p. loop_exit s = Some (Panicked p) \<longrightarrow>
        rate = 0 \<and> p = Divide_by_zero \<and> ticks_log s = [])"

text \<open>
  Every tick sent is at or after its intended instant, the one computed from \<^verbatim>\<open>began\<close>
  and its index.
\<close>

definition inv_sched :: "u64 \<Rightarrow> state \<Rightarrow> bool" where
  "inv_sched rate s \<longleftrightarrow>
     (\<forall>k < length (ticks_log s). next_of rate (began s) (of_nat k) \<le> ticks_log s ! k)"


text \<open>No tick has been sent and the scheduler has left its loop.\<close>

definition quiet :: "state \<Rightarrow> bool" where
  "quiet s \<longleftrightarrow> ticks_log s = [] \<and> \<not> in_loop (phase s) \<and> phase s \<noteq> Sched_init"

text \<open>
  Runs that end: a worker is idle when it holds no tick; \<open>drain\<close> is the shutdown of
  \<open>n\<close> idle workers; \<open>cycle\<close> is one tick handed to worker 0 and answered; \<open>ready\<close> is
  a scheduler at the top of its loop with every worker about to receive.
\<close>

fun idle :: "worker \<Rightarrow> bool" where
  "idle At_range = True"
| "idle Parked = True"
| "idle _ = False"

definition exits :: "nat \<Rightarrow> event list" where
  "exits n = map Worker_exit [0..<n]"

definition drain :: "nat \<Rightarrow> event list" where
  "drain n = Sched_close_ticks # exits n @ [Sched_wait_returns, Sched_close_results]"

definition cycle :: "u64 \<Rightarrow> state \<Rightarrow> event list" where
  "cycle rate s =
     (let c = clock s;
          woke = c + max 0 (time_Sub (next_of rate (began s) (done_n s)) c)
      in [Worker_park 0, Sched_now c, Sched_select woke (Send_tick 0),
          Worker_hit_done 0 None woke, Worker_deliver 0])"

definition ready :: "state \<Rightarrow> bool" where
  "ready s \<longleftrightarrow>
     crashed s = None \<and> phase s = Looping \<and> workers s \<noteq> [] \<and>
     (\<forall>w \<in> set (workers s). w = At_range) \<and>
     \<not> ticks_closed s \<and> \<not> results_closed s \<and> wg s = int (length (workers s)) \<and>
     loop_exit s = None"

definition inv_idle :: "state \<Rightarrow> bool" where
  "inv_idle s \<longleftrightarrow> (ticks_log s = [] \<and> \<not> ticks_closed s \<longrightarrow> (\<forall>w \<in> set (workers s). idle w))"





subsection \<open>Concrete runs\<close>

text \<open>
  A Burner with one worker, as \<^verbatim>\<open>GenBurner\<close> builds it, and one whose \<^verbatim>\<open>stopch\<close> has
  been made. \<open>run_three\<close> is a run at 3 calls per second for 1.5 seconds, the second
  invocation failing.
\<close>

definition burner_one :: Burner where
  "burner_one = \<lparr>Conn = ClientConn ''localhost:50051'', Workers = 1, stopch = Nil_chan\<rparr>"

definition burner_open :: Burner where
  "burner_open = \<lparr>Conn = ClientConn ''localhost:50051'', Workers = 1, stopch = Open_chan\<rparr>"

definition run_three :: "event list" where
  "run_three =
     [Sched_start 0, Worker_park 0,
      Sched_now 0, Sched_select 0 (Send_tick 0),
      Worker_hit_done 0 None 5, Worker_deliver 0, Worker_park 0,
      Sched_now 10, Sched_select 333333333 (Send_tick 0),
      Worker_hit_done 0 (Some ''unavailable'') 333333340, Worker_deliver 0, Worker_park 0,
      Sched_now 333333350, Sched_select 666666666 (Send_tick 0),
      Sched_close_ticks,
      Worker_hit_done 0 None 666666670, Worker_deliver 0, Worker_exit 0,
      Sched_wait_returns, Sched_close_results]"

definition final_three :: state where
  "final_three =
     \<lparr>phase = Ended, began = 0, done_n = 3, now_r = 333333350,
      loop_exit = Some Hits_reached, workers = [Exited], wg = 0,
      ticks_closed = True, results_closed = True, stop_chan = Nil_chan, stoppers = 0,
      clock = 666666670, ticks_log = [0, 333333333, 666666666],
      results_log =
        [\<lparr>Timestamp = 0, Latency = 5, Error = []\<rparr>,
         \<lparr>Timestamp = 333333333, Latency = 7, Error = ''unavailable''\<rparr>,
         \<lparr>Timestamp = 666666666, Latency = 4, Error = []\<rparr>],
      crashed = None\<rparr>"

definition target_one :: GTargeter where
  "target_one = \<lparr>Target = ''localhost:50051'', IsEtcd = False, MethodName = ''/svc/Call''\<rparr>"

definition run_rate_zero :: "event list" where
  "run_rate_zero =
     [Sched_start 0, Sched_close_ticks, Worker_exit 0, Sched_wait_returns, Sched_close_results]"

definition final_rate_zero :: state where
  "final_rate_zero =
     \<lparr>phase = Ended, began = 0, done_n = 0, now_r = 0,
      loop_exit = Some (Panicked Divide_by_zero), workers = [Exited], wg = 0,
      ticks_closed = True, results_closed = True, stop_chan = Nil_chan, stoppers = 0,
      clock = 0, ticks_log = [], results_log = [],
      crashed = Some Divide_by_zero\<rparr>"

definition run_half_second :: "event list" where
  "run_half_second =
     [Sched_start 0, Worker_park 0, Call_Stop, Stop_closes,
      Sched_now 0, Sched_select 0 (Send_tick 0),
      Sched_now 1, Sched_select 100000000 Stop_case]"

definition state_half_second :: state where
  "state_half_second =
     \<lparr>phase = Deferred_close_ticks, began = 0, done_n = 1, now_r = 1,
      loop_exit = Some Stop_observed, workers = [Hitting 0], wg = 1,
      ticks_closed = False, results_closed = False, stop_chan = Closed_chan, stoppers = 0,
      clock = 100000000, ticks_log = [0], results_log = [],
      crashed = None\<rparr>"

definition run_selecting :: "event list" where
  "run_selecting =
     [Sched_start 0, Worker_park 0,
      Sched_now 0, Sched_select 0 (Send_tick 0),
      Worker_hit_done 0 None 5, Worker_deliver 0, Worker_park 0,
      Sched_now 10]"

definition state_selecting :: state where
  "state_selecting =
     \<lparr>phase = Selecting, began = 0, done_n = 1, now_r = 10,
      loop_exit = None, workers = [Parked], wg = 1,
      ticks_closed = False, results_closed = False, stop_chan = Nil_chan, stoppers = 0,
      clock = 10, ticks_log = [0],
      results_log = [\<lparr>Timestamp = 0, Latency = 5, Error = []\<rparr>],
      crashed = None\<rparr>"

text \<open>
  \<open>run_seven\<close>: seven ticks at 3 calls per second (for 3 seconds), each sent at its
  intended instant and answered at once.
\<close>

definition run_seven :: "event list" where
  "run_seven =
     [Sched_start 0,
      Worker_park 0, Sched_now 0, Sched_select 0 (Send_tick 0),
      Worker_hit_done 0 None 0, Worker_deliver 0,
      Worker_park 0, Sched_now 0, Sched_select 333333333 (Send_tick 0),
      Worker_hit_done 0 None 333333333, Worker_deliver 0,
      Worker_park 0, Sched_now 333333333, Sched_select 666666666 (Send_tick 0),
      Worker_hit_done 0 None 666666666, Worker_deliver 0,
      Worker_park 0, Sched_now 666666666, Sched_select 999999999 (Send_tick 0),
      Worker_hit_done 0 None 999999999, Worker_deliver 0,
      Worker_park 0, Sched_now 999999999, Sched_select 1333333332 (Send_tick 0),
      Worker_hit_done 0 None 1333333332, Worker_deliver 0,
      Worker_park 0, Sched_now 1333333332, Sched_select 1666666665 (Send_tick 0),
      Worker_hit_done 0 None 1666666665, Worker_deliver 0,
      Worker_park 0, Sched_now 1666666665, Sched_select 1999999998 (Send_tick 0),
      Worker_hit_done 0 None 1999999998, Worker_deliver 0]"



text \<open>
  One call per second for one second, and the invocation panics: the worker runs
  \<^verbatim>\<open>workers.Done()\<close> without a Result, the scheduler closes the stream, the program
  ends. And the same tick with a call of \<^verbatim>\<open>Stop\<close> on the Burner of \<^verbatim>\<open>GenBurner\<close> while
  the invocation is in flight.
\<close>

definition run_panic :: "event list" where
  "run_panic =
     [Sched_start 0, Worker_park 0,
      Sched_now 0, Sched_select 0 (Send_tick 0),
      Worker_hit_panics 0,
      Sched_close_ticks, Sched_wait_returns, Sched_close_results,
      Worker_crash 0]"

definition final_panic :: state where
  "final_panic =
     \<lparr>phase = Ended, began = 0, done_n = 1, now_r = 0,
      loop_exit = Some Hits_reached, workers = [Panicking 0], wg = 0,
      ticks_closed = True, results_closed = True, stop_chan = Nil_chan, stoppers = 0,
      clock = 0, ticks_log = [0], results_log = [],
      crashed = Some Nil_dereference\<rparr>"

definition run_stop_in_flight :: "event list" where
  "run_stop_in_flight =
     [Sched_start 0, Worker_park 0,
      Sched_now 0, Sched_select 0 (Send_tick 0),
      Call_Stop, Stop_closes]"

definition final_stop_in_flight :: state where
  "final_stop_in_flight =
     \<lparr>phase = Deferred_close_ticks, began = 0, done_n = 1, now_r = 0,
      loop_exit = Some Hits_reached, workers = [Hitting 0], wg = 1,
      ticks_closed = False, results_closed = False, stop_chan = Nil_chan, stoppers = 1,
      clock = 0, ticks_log = [0], results_log = [],
      crashed = Some Close_of_nil_channel\<rparr>"

definition run_hitting :: "event list" where
  "run_hitting =
     [Sched_start 0, Worker_park 0,
      Sched_now 0, Sched_select 2 (Send_tick 0)]"

definition state_hitting :: state where
  "state_hitting =
     \<lparr>phase = Looping, began = 0, done_n = 1, now_r = 0,
      loop_exit = None, workers = [Hitting 0], wg = 1,
      ticks_closed = False, results_closed = False, stop_chan = Nil_chan, stoppers = 0,
      clock = 2, ticks_log = [0], results_log = [],
      crashed = None\<rparr>"

definition run_stop_first :: "event list" where
  "run_stop_first =
     [Call_Stop, Stop_closes, Sched_start 0, Worker_park 0,
      Sched_now 0, Sched_select 0 (Send_tick 0),
      Sched_now 1, Sched_select 333333333 Stop_case,
      Sched_close_ticks,
      Worker_hit_done 0 None 333333340, Worker_deliver 0, Worker_exit 0,
      Sched_wait_returns, Sched_close_results]"

definition final_stop_first :: state where
  "final_stop_first =
     \<lparr>phase = Ended, began = 0, done_n = 1, now_r = 1,
      loop_exit = Some Stop_observed, workers = [Exited], wg = 0,
      ticks_closed = True, results_closed = True, stop_chan = Closed_chan, stoppers = 0,
      clock = 333333340, ticks_log = [0],
      results_log = [\<lparr>Timestamp = 0, Latency = 333333340, Error = []\<rparr>],
      crashed = None\<rparr>"

definition run_stop_unparked :: "event list" where
  "run_stop_unparked = [Call_Stop, Stop_closes, Sched_start 0, Sched_now 0]"

definition state_stop_unparked :: state where
  "state_stop_unparked =
     \<lparr>phase = Selecting, began = 0, done_n = 0, now_r = 0,
      loop_exit = None, workers = [At_range], wg = 1,
      ticks_closed = False, results_closed = False, stop_chan = Closed_chan, stoppers = 0,
      clock = 0, ticks_log = [], results_log = [],
      crashed = None\<rparr>"

definition run_stop_drain :: "event list" where
  "run_stop_drain = [Sched_close_ticks, Worker_exit 0, Sched_wait_returns, Sched_close_results]"

definition final_stop_unparked :: state where
  "final_stop_unparked =
     \<lparr>phase = Ended, began = 0, done_n = 0, now_r = 0,
      loop_exit = Some Stop_observed, workers = [Exited], wg = 0,
      ticks_closed = True, results_closed = True, stop_chan = Closed_chan, stoppers = 0,
      clock = 4, ticks_log = [], results_log = [],
      crashed = None\<rparr>"

section \<open>Properties\<close>

subsection \<open>Rounding, and the whole seconds of a duration\<close>

text \<open>
  Below \<open>2^24\<close> seconds the two roundings of \<^verbatim>\<open>Seconds\<close> do not reach the next whole
  second, and the conversion gives the integer quotient by \<open>10^9\<close>
  (\<open>Seconds_u64_exact\<close>); a duration of less than a second, of either sign, gives 0.
\<close>

lemma round_even_cases:
  "round_even q = \<lfloor>q\<rfloor> \<and> q - of_int \<lfloor>q\<rfloor> \<le> 1 / 2 \<or>
   round_even q = \<lfloor>q\<rfloor> + 1 \<and> 1 / 2 \<le> q - of_int \<lfloor>q\<rfloor>"
  unfolding round_even_def Let_def by (simp add: not_less)

lemma round_even_upper: "real_of_int (round_even q) \<le> q + 1 / 2"
proof -
  have "of_int \<lfloor>q\<rfloor> \<le> q" by simp
  with round_even_cases [of q] show ?thesis
    by (elim disjE conjE) (simp_all, linarith+)
qed

lemma round_even_lower: "q - 1 / 2 \<le> real_of_int (round_even q)"
proof -
  have "q < of_int \<lfloor>q\<rfloor> + 1" by linarith
  with round_even_cases [of q] show ?thesis
    by (elim disjE conjE) (simp_all, linarith+)
qed

lemma round_even_ge_int:
  assumes "real_of_int n \<le> q"
  shows "n \<le> round_even q"
proof -
  from assms have "n \<le> \<lfloor>q\<rfloor>" by (simp add: le_floor_iff)
  with round_even_cases [of q] show ?thesis by (elim disjE conjE) simp_all
qed

lemma pow2_powi: "pow2 k = 2 powi k"
  by (simp add: pow2_def power_int_def power_one_over inverse_eq_divide flip: power_inverse)

lemma pow2_pos: "0 < pow2 k"
  by (simp add: pow2_def)

lemma pow2_mono: "j \<le> k \<Longrightarrow> pow2 j \<le> pow2 k"
  by (simp add: pow2_powi power_int_increasing)

lemma f64_nonneg: "0 \<le> x \<Longrightarrow> 0 \<le> f64 x"
proof -
  assume x: "0 \<le> x"
  show ?thesis
  proof (cases "x = 0")
    case True
    then show ?thesis by (simp add: f64_def)
  next
    case False
    with x have "0 \<le> \<bar>x\<bar> / pow2 (f64_exponent \<bar>x\<bar> - 52)"
      using pow2_pos [of "f64_exponent \<bar>x\<bar> - 52"] by simp
    then have "0 \<le> round_even (\<bar>x\<bar> / pow2 (f64_exponent \<bar>x\<bar> - 52))"
      by (intro round_even_ge_int) simp
    with False x show ?thesis
      using pow2_pos [of "f64_exponent \<bar>x\<bar> - 52"] by (simp add: f64_def Let_def)
  qed
qed

lemma f64_error:
  assumes "0 < x" "f64_exponent x - 52 \<le> k"
  shows "\<bar>f64 x - x\<bar> \<le> pow2 k / 2"
proof -
  define u where "u = pow2 (f64_exponent x - 52)"
  have u: "0 < u" by (simp add: u_def pow2_pos)
  from assms(1) have f: "f64 x = of_int (round_even (x / u)) * u"
    by (simp add: f64_def Let_def u_def)
  have "\<bar>real_of_int (round_even (x / u)) - x / u\<bar> \<le> 1 / 2"
    using round_even_upper [of "x / u"] round_even_lower [of "x / u"] by linarith
  then have "\<bar>real_of_int (round_even (x / u)) - x / u\<bar> * u \<le> 1 / 2 * u"
    using u by (intro mult_right_mono) simp_all
  moreover have "real_of_int (round_even (x / u)) * u - x
      = (real_of_int (round_even (x / u)) - x / u) * u"
    using u by (simp add: field_simps)
  then have "\<bar>real_of_int (round_even (x / u)) * u - x\<bar>
      = \<bar>real_of_int (round_even (x / u)) - x / u\<bar> * u"
    using u by (simp add: abs_mult)
  ultimately have "\<bar>real_of_int (round_even (x / u)) * u - x\<bar> \<le> u / 2"
    by simp
  moreover from assms(2) have "u \<le> pow2 k" unfolding u_def by (rule pow2_mono)
  ultimately show ?thesis using f by simp
qed

lemma f64_exponent_small:
  assumes "0 < x" "x < 1"
  shows "f64_exponent x \<le> - 1"
proof -
  from assms have "1 < 1 / x" by simp
  then have "2 \<le> \<lceil>1 / x\<rceil>" by linarith
  then have "1 \<le> bitlen (\<lceil>1 / x\<rceil> - 1)"
    by (simp add: bitlen_ge_iff_power)
  with assms show ?thesis by (simp add: f64_exponent_def)
qed

lemma f64_exponent_range:
  assumes "1 \<le> x" "x < 2 ^ n"
  shows "0 \<le> f64_exponent x" "f64_exponent x \<le> int n - 1"
proof -
  from assms(1) have p: "1 \<le> \<lfloor>x\<rfloor>" by simp
  then have "1 \<le> bitlen \<lfloor>x\<rfloor>" by (simp add: bitlen_ge_iff_power)
  with assms(1) show "0 \<le> f64_exponent x" by (simp add: f64_exponent_def)
  from assms(2) have "\<lfloor>x\<rfloor> < 2 ^ n" by (simp add: floor_less_iff)
  then have "bitlen \<lfloor>x\<rfloor> \<le> int n" by (simp add: bitlen_le_iff_power)
  with assms(1) show "f64_exponent x \<le> int n - 1" by (simp add: f64_exponent_def)
qed

lemma f64_ge_int:
  assumes "1 \<le> x" "x < 2 ^ 53" "real_of_int n \<le> x"
  shows "real_of_int n \<le> f64 x"
proof -
  define e where "e = f64_exponent x"
  from f64_exponent_range [OF assms(1,2)] have e: "0 \<le> e" "e \<le> 52" by (simp_all add: e_def)
  define u where "u = pow2 (e - 52)"
  from e have u: "u = 1 / 2 ^ nat (52 - e)"
    by (auto simp: u_def pow2_def)
  from assms(1) have f: "f64 x = of_int (round_even (x / u)) * u"
    by (simp add: f64_def Let_def u_def e_def)
  have "real_of_int (n * 2 ^ nat (52 - e)) \<le> x / u"
    using assms(3) by (simp add: u mult_right_mono)
  then have "n * 2 ^ nat (52 - e) \<le> round_even (x / u)" by (rule round_even_ge_int)
  then have "real_of_int (n * 2 ^ nat (52 - e)) \<le> real_of_int (round_even (x / u))"
    by linarith
  then have "real_of_int (n * 2 ^ nat (52 - e)) * u \<le> real_of_int (round_even (x / u)) * u"
    by (intro mult_right_mono) (simp_all add: u)
  with f show ?thesis by (simp add: u)
qed

lemma f64_zero: "f64 0 = 0"
  by (simp add: f64_def)

lemma f64_minus: "f64 (- x) = - f64 x"
  by (simp add: f64_def Let_def sgn_minus)

lemma f64_fraction:
  assumes "0 \<le> a" "a \<le> 1 - 1 / 1000000000"
  shows "0 \<le> f64 a" "f64 a \<le> 1 - 1 / 1000000000 + pow2 (- 53) / 2"
proof -
  from assms(1) show "0 \<le> f64 a" by (rule f64_nonneg)
  show "f64 a \<le> 1 - 1 / 1000000000 + pow2 (- 53) / 2"
  proof (cases "a = 0")
    case True
    then show ?thesis by (simp add: f64_zero pow2_def)
  next
    case False
    with assms have a: "0 < a" "a < 1" by simp_all
    from f64_exponent_small [OF a] have "f64_exponent a - 52 \<le> - 53" by simp
    from f64_error [OF a(1) this] assms(2) show ?thesis by linarith
  qed
qed

lemma f64_below_one:
  assumes "0 \<le> a" "a \<le> 1 - 1 / 1000000000 + pow2 (- 53) / 2"
  shows "0 \<le> f64 a" "f64 a < 1"
proof -
  from assms(1) show "0 \<le> f64 a" by (rule f64_nonneg)
  have p: "pow2 (- 53) / 2 < 1 / 4000000000" by (simp add: pow2_def)
  show "f64 a < 1"
  proof (cases "a = 0")
    case True
    then show ?thesis by (simp add: f64_zero)
  next
    case False
    with assms p have a: "0 < a" "a < 1" by simp_all
    from f64_exponent_small [OF a] have "f64_exponent a - 52 \<le> - 53" by simp
    from f64_error [OF a(1) this] assms(2) p show ?thesis by linarith
  qed
qed

lemma f64_floor_sum:
  assumes n: "1 \<le> n" "n < 2 ^ 24"
    and f: "0 \<le> f" "f \<le> 1 - 1 / 1000000000 + pow2 (- 53) / 2"
  shows "\<lfloor>f64 (of_int n + f)\<rfloor> = n"
proof -
  define x where "x = real_of_int n + f"
  have p: "pow2 (- 53) / 2 < 1 / 100000000000" "pow2 (- 29) / 2 < 1 / 1000000000 - 1 / 100000000000"
    by (simp_all add: pow2_def)
  from n f have x1: "1 \<le> x" by (simp add: x_def)
  from n(2) have "n + 1 \<le> 2 ^ 24" by simp
  then have "real_of_int (n + 1) \<le> real_of_int (2 ^ 24)" by (rule of_int_le_iff [THEN iffD2])
  then have n24: "real_of_int n + 1 \<le> 2 ^ 24" by simp
  with f p have x24: "x < 2 ^ 24" unfolding x_def by linarith
  then have x53: "x < 2 ^ 53" by simp
  from f have "real_of_int n \<le> x" by (simp add: x_def)
  from f64_ge_int [OF x1 x53 this] have lo: "real_of_int n \<le> f64 x" .
  from f64_exponent_range(2) [OF x1 x24] have "f64_exponent x - 52 \<le> - 29" by simp
  moreover from x1 have "0 < x" by simp
  ultimately have "\<bar>f64 x - x\<bar> \<le> pow2 (- 29) / 2" by (rule f64_error [rotated])
  with f p have hi: "f64 x < real_of_int n + 1" unfolding x_def by linarith
  from lo hi have "\<lfloor>f64 x\<rfloor> = n" by linarith
  then show ?thesis by (simp add: x_def)
qed

lemma Duration_Seconds_floor:
  assumes "0 \<le> du" "du < 16777216000000000"
  shows "0 \<le> Duration_Seconds du" "\<lfloor>Duration_Seconds du\<rfloor> = du div 1000000000"
proof -
  define n where "n = du div 1000000000"
  define m where "m = du mod 1000000000"
  define a where "a = real_of_int m / 1000000000"
  have m: "0 \<le> m" "m \<le> 999999999" by (simp_all add: m_def) 
  from assms have n: "0 \<le> n" "n < 2 ^ 24" by (simp_all add: n_def)
  have ds: "Duration_Seconds du = f64 (of_int n + f64 a)"
  proof (cases "du = 0")
    case True
    then show ?thesis by (simp add: Duration_Seconds_def n_def m_def a_def)
  next
    case False
    with assms(1) have "sgn du = 1" "\<bar>du\<bar> = du" by simp_all
    then show ?thesis by (simp add: Duration_Seconds_def n_def m_def a_def)
  qed
  from m have "real_of_int m \<le> real_of_int 999999999" by (intro of_int_le_iff [THEN iffD2])
  with m(1) have a: "0 \<le> a" "a \<le> 1 - 1 / 1000000000" by (simp_all add: a_def)
  note f = f64_fraction [OF a]
  show "0 \<le> Duration_Seconds du" unfolding ds using n(1) f(1) by (intro f64_nonneg) simp
  show "\<lfloor>Duration_Seconds du\<rfloor> = du div 1000000000"
  proof (cases "n = 0")
    case True
    from f64_below_one [OF f] have "\<lfloor>f64 (f64 a)\<rfloor> = 0" by linarith
    with True show ?thesis by (simp add: ds n_def [symmetric])
  next
    case False
    with n have "1 \<le> n" by simp
    from f64_floor_sum [OF this n(2) f] show ?thesis by (simp add: ds n_def [symmetric])
  qed
qed

lemma Seconds_u64_exact:
  assumes "0 \<le> du" "du < 16777216000000000"
  shows "Seconds_u64 du = word_of_int (du div 1000000000)"
proof -
  note d = Duration_Seconds_floor [OF assms]
  from assms have "0 \<le> du div 1000000000" "du div 1000000000 < 2 ^ 64" by simp_all
  with d show ?thesis by (simp add: Seconds_u64_def uint64_of_f64_def Let_def)
qed

lemma Duration_Seconds_minus: "Duration_Seconds (- du) = - Duration_Seconds du"
proof -
  have "f64 (- x - f64 y) = - f64 (x + f64 y)" for x y
    using f64_minus [of "x + f64 y"] by simp
  then show ?thesis
    by (simp add: Duration_Seconds_def Let_def sgn_minus f64_minus)
qed

lemma Seconds_u64_subsecond:
  assumes "- 1000000000 < du" "du < 1000000000"
  shows "Seconds_u64 du = 0"
proof (cases "0 \<le> du")
  case True
  with assms have "du div 1000000000 = 0" by simp
  with Seconds_u64_exact [of du] True assms show ?thesis by simp
next
  case False
  with assms have d: "0 \<le> - du" "- du < 16777216000000000" "(- du) div 1000000000 = 0" by simp_all
  from Duration_Seconds_floor [OF d(1,2)] d(3)
  have "0 \<le> Duration_Seconds (- du)" "Duration_Seconds (- du) < 1" by linarith+
  then have "Duration_Seconds du \<le> 0" "- 1 < Duration_Seconds du"
    by (simp_all add: Duration_Seconds_minus)
  then have "\<lceil>Duration_Seconds du\<rceil> = 0" by linarith
  moreover from \<open>Duration_Seconds du \<le> 0\<close> have "\<lfloor>Duration_Seconds du\<rfloor> = 0" if "0 \<le> Duration_Seconds du"
    using that by simp
  ultimately show ?thesis by (simp add: Seconds_u64_def uint64_of_f64_def Let_def)
qed

text \<open>
  From \<open>2^24\<close> seconds on the sum is rounded to a multiple of \<open>2^-28\<close> or coarser,
  and a fraction close to one second is rounded up to the next whole second.
\<close>

lemma Seconds_u64_rounds_up: "Seconds_u64 16777216999999999 = 16777217"
  by code_simp

lemma Seconds_u64_values:
  "Seconds_u64 500000000 = 0" "Seconds_u64 1000000000 = 1" "Seconds_u64 1500000000 = 1"
  "Seconds_u64 3000000000 = 3"
  by (simp_all add: Seconds_u64_exact)

subsection \<open>Arithmetic of the counter and of the intended instant\<close>

lemma unat_u64_less: "unat (w :: u64) < 2 ^ 64"
  using unsigned_less [of w, where 'a = nat] by simp

lemma unat_of_nat_u64: "n < 2 ^ 64 \<Longrightarrow> unat (of_nat n :: u64) = n"
  by (simp add: unat_of_nat)

lemma hits_bound_le: "hits_bound rate du \<le> 2 ^ 64"
  unfolding hits_bound_def using unat_u64_less [of "hits_of rate du"] by auto

lemma of_nat_hits_bound: "(of_nat (hits_bound rate du) :: u64) = hits_of rate du"
  unfolding hits_bound_def by simp

lemma count_reaches:
  assumes "n < hits_bound rate du" "(of_nat n + 1 :: u64) = hits_of rate du"
  shows "Suc n = hits_bound rate du"
proof (rule ccontr)
  from assms(2) have a2: "(of_nat (Suc n) :: u64) = hits_of rate du" by (simp add: add.commute)
  assume "Suc n \<noteq> hits_bound rate du"
  with assms(1) have lt: "Suc n < hits_bound rate du" by simp
  with hits_bound_le [of rate du] have "Suc n < 2 ^ 64" by simp
  then have u: "unat (of_nat (Suc n) :: u64) = Suc n" by (rule unat_of_nat_u64)
  show False
  proof (cases "hits_of rate du = 0")
    case True
    with a2 u show False by simp
  next
    case False
    with lt have l: "Suc n < unat (hits_of rate du)" by (simp add: hits_bound_def)
    with a2 u show False by simp
  qed
qed

lemma count_continues:
  assumes "n < hits_bound rate du" "(of_nat n + 1 :: u64) \<noteq> hits_of rate du"
  shows "Suc n < hits_bound rate du"
proof -
  from assms(2) have "(of_nat (Suc n) :: u64) \<noteq> hits_of rate du" by (simp add: add.commute)
  then have "Suc n \<noteq> hits_bound rate du"
    using of_nat_hits_bound [of rate du] by metis
  with assms(1) show ?thesis by simp
qed

lemma sint_of_nat_small:
  assumes "m < 2 ^ 63"
  shows "sint (of_nat m :: u64) = int m"
proof -
  have "signed_take_bit 63 (int m) = int m"
    using assms by (simp add: signed_take_bit_int_eq_self)
  then show ?thesis by (simp add: signed_of_nat)
qed

lemma interval_unat: "unat (interval_of rate) = 1000000000 div unat rate"
  by (simp add: interval_of_def unat_div)

lemma next_of_exact:
  assumes "n * (1000000000 div unat rate) < 2 ^ 63"
  shows "next_of rate t0 (of_nat n) = t0 + int n * int (1000000000 div unat rate)"
proof -
  have "(of_nat n :: u64) * interval_of rate = of_nat n * of_nat (unat (interval_of rate))"
    by simp
  also have "\<dots> = of_nat (n * (1000000000 div unat rate))"
    by (simp add: interval_unat)
  finally have "sint (of_nat n * interval_of rate) = int (n * (1000000000 div unat rate))"
    using assms by (simp only: sint_of_nat_small)
  then show ?thesis by (simp add: next_of_def time_Add_def)
qed

subsection \<open>What a step does\<close>

lemma step_Sched_start:
  assumes "step rate du s (Sched_start t) = Some s'"
  shows "crashed s = None \<and> phase s = Sched_init \<and>
    (rate = 0 \<and> s' = s\<lparr>phase := Deferred_close_ticks, loop_exit := Some (Panicked Divide_by_zero)\<rparr>
     \<or> rate \<noteq> 0 \<and> clock s \<le> t \<and> s' = s\<lparr>phase := Looping, began := t, done_n := 0, clock := t\<rparr>)"
  using assms by (auto simp: step_def sched_start_def split: if_splits)

lemma step_Sched_now:
  assumes "step rate du s (Sched_now now) = Some s'"
  shows "crashed s = None \<and> phase s = Looping \<and> clock s \<le> now \<and>
    s' = s\<lparr>phase := Selecting, now_r := now, clock := now\<rparr>"
  using assms by (auto simp: step_def sched_now_def split: if_splits)

lemma step_Sched_select:
  assumes "step rate du s (Sched_select woke c) = Some s'"
  shows "crashed s = None \<and> phase s = Selecting \<and> clock s \<le> woke \<and>
    \<not> woke < now_r s + time_Sub (next_of rate (began s) (done_n s)) (now_r s)"
  using assms by (auto simp: step_def sched_select_def Let_def split: if_splits)

lemma step_Send_tick:
  assumes "step rate du s (Sched_select woke (Send_tick w)) = Some s'"
  shows "w < length (workers s) \<and> workers s ! w = Parked \<and>
    (\<exists>s1. s1 = s\<lparr>clock := woke,
           workers := (workers s)[w := Hitting (max_time (next_of rate (began s) (done_n s)) (now_r s))],
           ticks_log := ticks_log s @ [max_time (next_of rate (began s) (done_n s)) (now_r s)],
           done_n := done_n s + 1\<rparr> \<and>
      (done_n s + 1 = hits_of rate du \<and>
         s' = s1\<lparr>phase := Deferred_close_ticks, loop_exit := Some Hits_reached\<rparr>
       \<or> done_n s + 1 \<noteq> hits_of rate du \<and> s' = s1\<lparr>phase := Looping\<rparr>))"
  using assms by (auto simp: step_def sched_select_def Let_def split: if_splits)

lemma step_Stop_case:
  assumes "step rate du s (Sched_select woke Stop_case) = Some s'"
  shows "stop_chan s = Closed_chan \<and>
    s' = s\<lparr>clock := woke, phase := Deferred_close_ticks, loop_exit := Some Stop_observed\<rparr>"
  using assms by (auto simp: step_def sched_select_def Let_def split: if_splits)

lemma step_Default_case:
  assumes "step rate du s (Sched_select woke Default_case) = Some s'"
  shows "Parked \<notin> set (workers s) \<and> stop_chan s \<noteq> Closed_chan \<and>
    s' = s\<lparr>clock := woke, phase := Looping, wg := wg s + 1, workers := workers s @ [At_range]\<rparr>"
  using assms by (auto simp: step_def sched_select_def Let_def split: if_splits)

lemma step_Sched_close_ticks:
  assumes "step rate du s Sched_close_ticks = Some s'"
  shows "crashed s = None \<and> phase s = Deferred_close_ticks \<and>
    (ticks_closed s \<and> s' = s\<lparr>crashed := Some Close_of_closed_channel\<rparr>
     \<or> \<not> ticks_closed s \<and> s' = s\<lparr>ticks_closed := True, phase := Deferred_wait\<rparr>)"
  using assms by (auto simp: step_def sched_close_ticks_def split: if_splits)

lemma step_Sched_wait_returns:
  assumes "step rate du s Sched_wait_returns = Some s'"
  shows "crashed s = None \<and> phase s = Deferred_wait \<and> wg s = 0 \<and>
    s' = s\<lparr>phase := Deferred_close_results\<rparr>"
  using assms by (auto simp: step_def sched_wait_returns_def split: if_splits)

lemma step_Sched_close_results:
  assumes "step rate du s Sched_close_results = Some s'"
  shows "crashed s = None \<and> phase s = Deferred_close_results \<and>
    (results_closed s \<and> s' = s\<lparr>crashed := Some Close_of_closed_channel\<rparr>
     \<or> \<not> results_closed s \<and>
       s' = s\<lparr>results_closed := True, phase := Ended,
               crashed := (case loop_exit s of Some (Panicked p) \<Rightarrow> Some p | _ \<Rightarrow> None)\<rparr>)"
  using assms by (auto simp: step_def sched_close_results_def split: if_splits)

lemma step_Worker_park:
  assumes "step rate du s (Worker_park w) = Some s'"
  shows "crashed s = None \<and> w < length (workers s) \<and> workers s ! w = At_range \<and>
    \<not> ticks_closed s \<and> s' = s\<lparr>workers := (workers s)[w := Parked]\<rparr>"
  using assms by (auto simp: step_def worker_park_def split: if_splits)

lemma step_Worker_exit:
  assumes "step rate du s (Worker_exit w) = Some s'"
  shows "crashed s = None \<and> w < length (workers s) \<and>
    (workers s ! w = At_range \<or> workers s ! w = Parked) \<and> ticks_closed s \<and>
    s' = s\<lparr>workers := (workers s)[w := Exited], wg := wg s - 1\<rparr>"
  using assms by (auto simp: step_def worker_exit_def split: if_splits)

lemma step_Worker_hit_done:
  assumes "step rate du s (Worker_hit_done w invoked t) = Some s'"
  shows "crashed s = None \<and> w < length (workers s) \<and> clock s \<le> t \<and>
    (\<exists>tm. workers s ! w = Hitting tm \<and>
       s' = s\<lparr>workers := (workers s)[w := Sending (hit tm invoked t)], clock := t\<rparr>)"
  using assms by (auto simp: step_def worker_hit_done_def split: if_splits worker.splits)

lemma step_Worker_deliver:
  assumes "step rate du s (Worker_deliver w) = Some s'"
  shows "crashed s = None \<and> w < length (workers s) \<and>
    (\<exists>r. workers s ! w = Sending r \<and>
       (results_closed s \<and> s' = s\<lparr>crashed := Some Send_on_closed_channel\<rparr>
        \<or> \<not> results_closed s \<and>
          s' = s\<lparr>workers := (workers s)[w := At_range], results_log := results_log s @ [r]\<rparr>))"
  using assms by (auto simp: step_def worker_deliver_def split: if_splits worker.splits)

lemma step_Worker_hit_panics:
  assumes "step rate du s (Worker_hit_panics w) = Some s'"
  shows "crashed s = None \<and> w < length (workers s) \<and>
    (\<exists>tm. workers s ! w = Hitting tm \<and>
       s' = s\<lparr>workers := (workers s)[w := Panicking tm], wg := wg s - 1\<rparr>)"
  using assms by (auto simp: step_def worker_hit_panics_def split: if_splits worker.splits)

lemma step_Worker_crash:
  assumes "step rate du s (Worker_crash w) = Some s'"
  shows "crashed s = None \<and> w < length (workers s) \<and>
    (\<exists>tm. workers s ! w = Panicking tm) \<and> s' = s\<lparr>crashed := Some Nil_dereference\<rparr>"
  using assms by (auto simp: step_def worker_crash_def split: if_splits worker.splits)

lemma step_Call_Stop:
  assumes "step rate du s Call_Stop = Some s'"
  shows "crashed s = None \<and>
    (stop_chan s = Closed_chan \<and> s' = s
     \<or> stop_chan s \<noteq> Closed_chan \<and> s' = s\<lparr>stoppers := stoppers s + 1\<rparr>)"
  using assms by (auto simp: step_def call_Stop_def split: if_splits)

lemma step_Stop_closes:
  assumes "step rate du s Stop_closes = Some s'"
  shows "crashed s = None \<and> 0 < stoppers s \<and>
    (stop_chan s = Nil_chan \<and> s' = s\<lparr>crashed := Some Close_of_nil_channel\<rparr>
     \<or> stop_chan s = Closed_chan \<and> s' = s\<lparr>crashed := Some Close_of_closed_channel\<rparr>
     \<or> stop_chan s = Open_chan \<and> s' = s\<lparr>stop_chan := Closed_chan, stoppers := stoppers s - 1\<rparr>)"
  using assms by (auto simp: step_def stop_closes_def split: if_splits chan_state.splits)

subsection \<open>Workers in a list: updates of one worker\<close>

lemma sum_list_map_update:
  fixes f :: "'a \<Rightarrow> 'b::comm_monoid_add"
  shows "i < length xs \<Longrightarrow> sum_list (map f (xs[i := x])) + f (xs ! i) = sum_list (map f xs) + f x"
proof (induction xs arbitrary: i)
  case Nil
  then show ?case by simp
next
  case (Cons a xs)
  show ?case
  proof (cases i)
    case 0
    then show ?thesis by (simp add: ac_simps)
  next
    case (Suc j)
    with Cons.prems have "j < length xs" by simp
    from Cons.IH [OF this] Suc show ?thesis by (simp add: ac_simps)
  qed
qed

lemma in_set_update: "y \<in> set (ws[w := x]) \<Longrightarrow> y = x \<or> y \<in> set ws"
  using set_update_subset_insert [of ws w x] by auto

lemma live_update:
  "w < length ws \<Longrightarrow> live (ws[w := x]) + alive (ws ! w) = live ws + alive x"
  unfolding live_def by (rule sum_list_map_update)

lemma in_flight_update:
  "w < length ws \<Longrightarrow> in_flight (ws[w := x]) + pending (ws ! w) = in_flight ws + pending x"
  unfolding in_flight_def by (rule sum_list_map_update)

lemma live_update_same:
  "w < length ws \<Longrightarrow> alive (ws ! w) = alive x \<Longrightarrow> live (ws[w := x]) = live ws"
  using live_update [of w ws x] by simp

lemma live_update_exit:
  "w < length ws \<Longrightarrow> alive (ws ! w) = 1 \<Longrightarrow> int (live (ws[w := Exited])) = int (live ws) - 1"
  using live_update [of w ws Exited] by simp

lemma live_update_panic:
  "w < length ws \<Longrightarrow> alive (ws ! w) = 1 \<Longrightarrow>
   int (live (ws[w := Panicking tm])) = int (live ws) - 1"
  using live_update [of w ws "Panicking tm"] by simp

lemma in_flight_update_idle:
  "w < length ws \<Longrightarrow> pending (ws ! w) = {#} \<Longrightarrow>
   in_flight (ws[w := x]) = in_flight ws + pending x"
  using in_flight_update [of w ws x] by simp

lemma in_flight_update_same:
  "w < length ws \<Longrightarrow> pending (ws ! w) = pending x \<Longrightarrow>
   in_flight (ws[w := x]) = in_flight ws"
  using in_flight_update [of w ws x] by simp

lemma in_flight_update_deliver:
  "w < length ws \<Longrightarrow> ws ! w = Sending r \<Longrightarrow>
   in_flight ws = add_mset (Timestamp r) (in_flight (ws[w := At_range]))"
  using in_flight_update [of w ws At_range] by simp

lemma live_replicate: "live (replicate n At_range) = n"
  by (induction n) (simp_all add: live_def)

lemma in_flight_replicate: "in_flight (replicate n At_range) = {#}"
  by (induction n) (simp_all add: in_flight_def)

lemma hit_Timestamp: "Timestamp (hit tm invoked t) = tm"
  by (simp add: hit_def Let_def split: option.splits)

lemma hit_Latency: "Latency (hit tm invoked t) = time_Sub t tm"
  by (simp add: hit_def Let_def split: option.splits)

lemma hit_Error: "Error (hit tm invoked t) = (case invoked of None \<Rightarrow> [] | Some msg \<Rightarrow> msg)"
  by (simp add: hit_def Let_def split: option.splits)

lemma live_0_alive:
  assumes "live ws = 0" "w < length ws"
  shows "alive (ws ! w) = 0"
  using assms unfolding live_def by (simp add: sum_list_eq_0_iff)


lemma Exited_in_flight: "\<forall>w \<in> set ws. w = Exited \<Longrightarrow> in_flight ws = {#}"
  by (induction ws) (simp_all add: in_flight_def)

lemma gone_without_tick:
  "live ws = 0 \<Longrightarrow> in_flight ws = {#} \<Longrightarrow> \<forall>w \<in> set ws. w = Exited"
proof (induction ws)
  case Nil
  then show ?case by simp
next
  case (Cons a ws)
  then show ?case by (cases a) (simp_all add: in_flight_def live_def)
qed

lemma live_append: "live (ws @ [x]) = live ws + alive x"
  by (simp add: live_def)

lemma in_flight_append: "in_flight (ws @ [x]) = in_flight ws + pending x"
  by (simp add: in_flight_def)

subsection \<open>The invariants hold in every run\<close>

lemma run_invariant:
  assumes "\<And>s e s'. P s \<Longrightarrow> step rate du s e = Some s' \<Longrightarrow> P s'"
  shows "P s \<Longrightarrow> run rate du s es = Some s' \<Longrightarrow> P s'"
proof (induction es arbitrary: s)
  case Nil
  then show ?case by simp
next
  case (Cons e es)
  then show ?case using assms by (auto split: option.splits)
qed

lemma inv_shutdown_step:
  assumes inv: "inv_shutdown s" and st: "step rate du s e = Some s'"
  shows "inv_shutdown s'"
proof (cases e)
  case (Sched_start t)
  from step_Sched_start [OF st [unfolded Sched_start]] inv show ?thesis
    by (auto simp: inv_shutdown_def)
next
  case (Sched_now t)
  from step_Sched_now [OF st [unfolded Sched_now]] inv show ?thesis
    by (auto simp: inv_shutdown_def)
next
  case (Sched_select woke c)
  note sel = step_Sched_select [OF st [unfolded Sched_select]]
  show ?thesis
  proof (cases c)
    case (Send_tick w)
    from step_Send_tick [OF st [unfolded Sched_select Send_tick]] sel inv show ?thesis
      by (auto simp: inv_shutdown_def live_update_same dest!: in_set_update)
  next
    case Stop_case
    from step_Stop_case [OF st [unfolded Sched_select Stop_case]] sel inv show ?thesis
      by (auto simp: inv_shutdown_def)
  next
    case Default_case
    from step_Default_case [OF st [unfolded Sched_select Default_case]] sel inv show ?thesis
      by (auto simp: inv_shutdown_def live_append)
  qed
next
  case Sched_close_ticks
  from step_Sched_close_ticks [OF st [unfolded Sched_close_ticks]] inv show ?thesis
    by (auto simp: inv_shutdown_def)
next
  case Sched_wait_returns
  from step_Sched_wait_returns [OF st [unfolded Sched_wait_returns]] inv show ?thesis
    by (auto simp: inv_shutdown_def)
next
  case Sched_close_results
  from step_Sched_close_results [OF st [unfolded Sched_close_results]] inv show ?thesis
    by (auto simp: inv_shutdown_def split: option.splits loop_exit.splits)
next
  case (Worker_park w)
  from step_Worker_park [OF st [unfolded Worker_park]] inv show ?thesis
    by (auto simp: inv_shutdown_def live_update_same dest!: in_set_update)
next
  case (Worker_hit_done w invoked t)
  from step_Worker_hit_done [OF st [unfolded Worker_hit_done]] inv show ?thesis
    by (auto simp: inv_shutdown_def live_update_same dest!: in_set_update)
next
  case (Worker_hit_panics w)
  from step_Worker_hit_panics [OF st [unfolded Worker_hit_panics]] inv
    live_0_alive [of "workers s" w]
  show ?thesis
    by (auto simp: inv_shutdown_def live_update_panic dest!: in_set_update)
next
  case (Worker_crash w)
  from step_Worker_crash [OF st [unfolded Worker_crash]] inv show ?thesis
    by (auto simp: inv_shutdown_def)
next
  case (Worker_deliver w)
  from step_Worker_deliver [OF st [unfolded Worker_deliver]] inv
    live_0_alive [of "workers s" w]
  show ?thesis
    by (auto simp: inv_shutdown_def live_update_same dest!: in_set_update)
next
  case (Worker_exit w)
  from step_Worker_exit [OF st [unfolded Worker_exit]] inv
    live_0_alive [of "workers s" w]
  show ?thesis
    by (auto simp: inv_shutdown_def live_update_exit)
next
  case Call_Stop
  from step_Call_Stop [OF st [unfolded Call_Stop]] inv show ?thesis
    by (auto simp: inv_shutdown_def)
next
  case Stop_closes
  from step_Stop_closes [OF st [unfolded Stop_closes]] inv show ?thesis
    by (auto simp: inv_shutdown_def)
qed

lemma inv_shutdown_Burn: "inv_shutdown (Burn b)"
  by (simp add: inv_shutdown_def Burn_def live_replicate)

lemma inv_results_step:
  assumes inv: "inv_results s" and st: "step rate du s e = Some s'"
  shows "inv_results s'"
proof (cases e)
  case (Sched_start t)
  from step_Sched_start [OF st [unfolded Sched_start]] inv show ?thesis
    by (auto simp: inv_results_def)
next
  case (Sched_now t)
  from step_Sched_now [OF st [unfolded Sched_now]] inv show ?thesis
    by (auto simp: inv_results_def)
next
  case (Sched_select woke c)
  show ?thesis
  proof (cases c)
    case (Send_tick w)
    from step_Send_tick [OF st [unfolded Sched_select Send_tick]] inv show ?thesis
      by (auto simp: inv_results_def in_flight_update_idle)
  next
    case Stop_case
    from step_Stop_case [OF st [unfolded Sched_select Stop_case]] inv show ?thesis
      by (auto simp: inv_results_def)
  next
    case Default_case
    from step_Default_case [OF st [unfolded Sched_select Default_case]] inv show ?thesis
      by (auto simp: inv_results_def in_flight_append)
  qed
next
  case Sched_close_ticks
  from step_Sched_close_ticks [OF st [unfolded Sched_close_ticks]] inv show ?thesis
    by (auto simp: inv_results_def)
next
  case Sched_wait_returns
  from step_Sched_wait_returns [OF st [unfolded Sched_wait_returns]] inv show ?thesis
    by (auto simp: inv_results_def)
next
  case Sched_close_results
  from step_Sched_close_results [OF st [unfolded Sched_close_results]] inv show ?thesis
    by (auto simp: inv_results_def)
next
  case (Worker_park w)
  from step_Worker_park [OF st [unfolded Worker_park]] inv show ?thesis
    by (auto simp: inv_results_def in_flight_update_same)
next
  case (Worker_hit_done w invoked t)
  from step_Worker_hit_done [OF st [unfolded Worker_hit_done]] inv show ?thesis
    by (auto simp: inv_results_def in_flight_update_same hit_Timestamp)
next
  case (Worker_hit_panics w)
  from step_Worker_hit_panics [OF st [unfolded Worker_hit_panics]] inv show ?thesis
    by (auto simp: inv_results_def in_flight_update_same)
next
  case (Worker_crash w)
  from step_Worker_crash [OF st [unfolded Worker_crash]] inv show ?thesis
    by (auto simp: inv_results_def)
next
  case (Worker_deliver w)
  from step_Worker_deliver [OF st [unfolded Worker_deliver]] inv
    in_flight_update_deliver [of w "workers s"]
  show ?thesis
    by (auto simp: inv_results_def)
next
  case (Worker_exit w)
  from step_Worker_exit [OF st [unfolded Worker_exit]] inv show ?thesis
    by (auto simp: inv_results_def in_flight_update_same)
next
  case Call_Stop
  from step_Call_Stop [OF st [unfolded Call_Stop]] inv show ?thesis
    by (auto simp: inv_results_def)
next
  case Stop_closes
  from step_Stop_closes [OF st [unfolded Stop_closes]] inv show ?thesis
    by (auto simp: inv_results_def)
qed

lemma inv_results_Burn: "inv_results (Burn b)"
  by (simp add: inv_results_def Burn_def in_flight_replicate)

lemma now_le_max_time: "now \<le> max_time nxt now"
  by (simp add: max_time_def)

lemma tick_le_woke:
  assumes "t0 \<le> now" "now \<le> woke"
    and "\<not> woke < now + time_Sub (next_of rate t0 d) now"
  shows "max_time (next_of rate t0 d) now \<le> woke"
proof -
  have "sint (d * interval_of rate) < 2 ^ 63"
    using sint_lt [of "d * interval_of rate"] by simp
  then have "next_of rate t0 d - now \<le> maxDuration"
    using assms(1) by (simp add: next_of_def time_Add_def maxDuration_def)
  then show ?thesis
    using assms(2,3) by (auto simp: time_Sub_def max_time_def minDuration_def split: if_splits)
qed

lemma positive_hits_bound: "0 < hits_bound rate du"
  unfolding hits_bound_def using unat_gt_0 [of "hits_of rate du"] by auto

lemma ticks_below_mono: "ticks_below ts ws c \<Longrightarrow> c \<le> c' \<Longrightarrow> ticks_below ts ws c'"
  unfolding ticks_below_def by fastforce

lemma ticks_below_update:
  "ticks_below ts ws c \<Longrightarrow> (\<And>tm. tick_of x = Some tm \<Longrightarrow> tm \<le> c) \<Longrightarrow>
   ticks_below ts (ws[w := x]) c"
  unfolding ticks_below_def by (auto dest!: in_set_update)

lemma ticks_below_spawn: "ticks_below ts (ws @ [At_range]) c = ticks_below ts ws c"
  unfolding ticks_below_def by auto

lemma ticks_below_snoc: "ticks_below (ts @ [t]) ws c \<longleftrightarrow> ticks_below ts ws c \<and> t \<le> c"
  unfolding ticks_below_def by auto

lemma ticks_below_Hitting:
  "ticks_below ts ws c \<Longrightarrow> w < length ws \<Longrightarrow> ws ! w = Hitting tm \<Longrightarrow> tm \<le> c"
  unfolding ticks_below_def using nth_mem [of w ws] by auto

lemma ticks_below_log: "ticks_below ts ws c \<Longrightarrow> t \<in> set ts \<Longrightarrow> t \<le> c"
  unfolding ticks_below_def by auto

lemma ticks_below_update_idle:
  "ticks_below ts ws c \<Longrightarrow> c \<le> c' \<Longrightarrow> tick_of x = None \<Longrightarrow>
   ticks_below ts (ws[w := x]) c'"
  unfolding ticks_below_def by (fastforce dest!: in_set_update)

lemma inv_clock_frame:
  assumes "inv_clock s"
    and "phase s' = phase s" "began s' = began s" "now_r s' = now_r s"
    and "ticks_log s' = ticks_log s" "clock s \<le> clock s'"
    and "ticks_below (ticks_log s) (workers s') (clock s')"
  shows "inv_clock s'"
  using assms by (auto simp: inv_clock_def)

lemma inv_clock_worker:
  assumes inv: "inv_clock s"
    and same: "phase s' = phase s" "began s' = began s" "now_r s' = now_r s"
      "ticks_log s' = ticks_log s"
    and clk: "clock s \<le> clock s'"
    and upd: "workers s' = (workers s)[w := x]" "tick_of x = None"
  shows "inv_clock s'"
proof -
  from inv have "ticks_below (ticks_log s) (workers s) (clock s)"
    by (simp add: inv_clock_def)
  then have "ticks_below (ticks_log s) ((workers s)[w := x]) (clock s')"
    using clk upd(2) by (rule ticks_below_update_idle)
  with inv same clk upd(1) show ?thesis
    by (intro inv_clock_frame [OF inv]) simp_all
qed

lemma inv_clock_crash:
  assumes "inv_clock s" "s' = s\<lparr>crashed := c\<rparr>"
  shows "inv_clock s'"
  using assms by (simp add: inv_clock_def)

lemma inv_clock_step:
  assumes inv: "inv_clock s" and st: "step rate du s e = Some s'"
  shows "inv_clock s'"
proof (cases e)
  case (Sched_start t)
  from step_Sched_start [OF st [unfolded Sched_start]] inv show ?thesis
    by (auto simp: inv_clock_def intro: ticks_below_mono)
next
  case (Sched_now t)
  from step_Sched_now [OF st [unfolded Sched_now]] inv show ?thesis
    by (auto simp: inv_clock_def intro: ticks_below_mono dest: ticks_below_log)
next
  case (Sched_select woke c)
  note sel = step_Sched_select [OF st [unfolded Sched_select]]
  with inv have now: "began s \<le> now_r s" "now_r s \<le> clock s"
    and old: "\<forall>t \<in> set (ticks_log s). t \<le> now_r s"
    and srt: "sorted (ticks_log s)"
    by (auto simp: inv_clock_def)
  from inv sel have below: "ticks_below (ticks_log s) (workers s) woke"
    by (auto simp: inv_clock_def intro: ticks_below_mono)
  show ?thesis
  proof (cases c)
    case (Send_tick w)
    define tick where "tick = max_time (next_of rate (began s) (done_n s)) (now_r s)"
    have t1: "tick \<le> woke"
      unfolding tick_def using now sel by (intro tick_le_woke) auto
    have t2: "now_r s \<le> tick"
      unfolding tick_def by (rule now_le_max_time)
    from old t2 have t3: "\<forall>t \<in> set (ticks_log s). t \<le> tick" by fastforce
    from below t1 have "ticks_below (ticks_log s) ((workers s)[w := Hitting tick]) woke"
      by (intro ticks_below_update) simp_all
    with t1 have b2: "ticks_below (ticks_log s @ [tick]) ((workers s)[w := Hitting tick]) woke"
      by (simp add: ticks_below_snoc)
    from step_Send_tick [OF st [unfolded Sched_select Send_tick]] t3 b2 srt now sel
    show ?thesis
      by (auto simp: inv_clock_def sorted_append tick_def [symmetric])
  next
    case Stop_case
    from step_Stop_case [OF st [unfolded Sched_select Stop_case]] below srt show ?thesis
      by (auto simp: inv_clock_def)
  next
    case Default_case
    from step_Default_case [OF st [unfolded Sched_select Default_case]] below srt now sel
    show ?thesis
      by (auto simp: inv_clock_def ticks_below_spawn)
  qed
next
  case Sched_close_ticks
  from step_Sched_close_ticks [OF st [unfolded Sched_close_ticks]] inv show ?thesis
    by (auto simp: inv_clock_def)
next
  case Sched_wait_returns
  from step_Sched_wait_returns [OF st [unfolded Sched_wait_returns]] inv show ?thesis
    by (auto simp: inv_clock_def)
next
  case Sched_close_results
  from step_Sched_close_results [OF st [unfolded Sched_close_results]] inv show ?thesis
    by (auto simp: inv_clock_def)
next
  case (Worker_park w)
  from step_Worker_park [OF st [unfolded Worker_park]]
  have s': "s' = s\<lparr>workers := (workers s)[w := Parked]\<rparr>" by simp
  show ?thesis
    by (rule inv_clock_worker [OF inv, where w = w and x = Parked]) (simp_all add: s')
next
  case (Worker_hit_done w invoked t)
  from step_Worker_hit_done [OF st [unfolded Worker_hit_done]] obtain tm
    where t: "clock s \<le> t"
      and s': "s' = s\<lparr>workers := (workers s)[w := Sending (hit tm invoked t)], clock := t\<rparr>"
    by auto
  show ?thesis
    by (rule inv_clock_worker [OF inv, where w = w and x = "Sending (hit tm invoked t)"])
      (simp_all add: s' t)
next
  case (Worker_hit_panics w)
  from step_Worker_hit_panics [OF st [unfolded Worker_hit_panics]] obtain tm
    where s': "s' = s\<lparr>workers := (workers s)[w := Panicking tm], wg := wg s - 1\<rparr>"
    by auto
  show ?thesis
    by (rule inv_clock_worker [OF inv, where w = w and x = "Panicking tm"]) (simp_all add: s')
next
  case (Worker_crash w)
  from step_Worker_crash [OF st [unfolded Worker_crash]]
  have "s' = s\<lparr>crashed := Some Nil_dereference\<rparr>" by simp
  with inv show ?thesis by (rule inv_clock_crash)
next
  case (Worker_deliver w)
  from step_Worker_deliver [OF st [unfolded Worker_deliver]] obtain r
    where "s' = s\<lparr>crashed := Some Send_on_closed_channel\<rparr>
      \<or> s' = s\<lparr>workers := (workers s)[w := At_range], results_log := results_log s @ [r]\<rparr>"
    by auto
  then show ?thesis
  proof
    assume "s' = s\<lparr>crashed := Some Send_on_closed_channel\<rparr>"
    with inv show ?thesis by (rule inv_clock_crash)
  next
    assume "s' = s\<lparr>workers := (workers s)[w := At_range], results_log := results_log s @ [r]\<rparr>"
    then show ?thesis
      by (intro inv_clock_worker [OF inv, where w = w and x = At_range]) simp_all
  qed
next
  case (Worker_exit w)
  from step_Worker_exit [OF st [unfolded Worker_exit]]
  have s': "s' = s\<lparr>workers := (workers s)[w := Exited], wg := wg s - 1\<rparr>" by simp
  show ?thesis
    by (rule inv_clock_worker [OF inv, where w = w and x = Exited]) (simp_all add: s')
next
  case Call_Stop
  from step_Call_Stop [OF st [unfolded Call_Stop]] inv show ?thesis
    by (auto simp: inv_clock_def)
next
  case Stop_closes
  from step_Stop_closes [OF st [unfolded Stop_closes]] inv show ?thesis
    by (auto simp: inv_clock_def)
qed

lemma inv_clock_Burn: "inv_clock (Burn b)"
  by (simp add: inv_clock_def Burn_def ticks_below_def)

lemma inv_count_frame:
  assumes "inv_count rate du s"
    and "phase s' = phase s" "loop_exit s' = loop_exit s" "done_n s' = done_n s"
    and "ticks_log s' = ticks_log s" "stop_chan s' = stop_chan s"
  shows "inv_count rate du s'"
  using assms(1) unfolding inv_count_def assms(2-) .

lemma inv_count_step:
  assumes inv: "inv_count rate du s" and st: "step rate du s e = Some s'"
  shows "inv_count rate du s'"
proof (cases e)
  case (Sched_start t)
  from step_Sched_start [OF st [unfolded Sched_start]] inv positive_hits_bound [of rate du]
  show ?thesis
    by (elim conjE disjE exE; simp add: inv_count_def)
next
  case (Sched_now t)
  from step_Sched_now [OF st [unfolded Sched_now]] inv show ?thesis
    by (elim conjE disjE exE; simp add: inv_count_def)
next
  case (Sched_select woke c)
  note sel = step_Sched_select [OF st [unfolded Sched_select]]
  show ?thesis
  proof (cases c)
    case (Send_tick w)
    from step_Send_tick [OF st [unfolded Sched_select Send_tick]] sel inv
      count_reaches [of "length (ticks_log s)" rate du]
      count_continues [of "length (ticks_log s)" rate du]
    show ?thesis
      by (elim conjE disjE exE; simp add: inv_count_def)
  next
    case Stop_case
    from step_Stop_case [OF st [unfolded Sched_select Stop_case]] sel inv show ?thesis
      by (elim conjE disjE exE; simp add: inv_count_def)
  next
    case Default_case
    from step_Default_case [OF st [unfolded Sched_select Default_case]] sel inv show ?thesis
      by (elim conjE disjE exE; simp add: inv_count_def)
  qed
next
  case Sched_close_ticks
  from step_Sched_close_ticks [OF st [unfolded Sched_close_ticks]] inv show ?thesis
    by (elim conjE disjE exE; simp add: inv_count_def)
next
  case Sched_wait_returns
  from step_Sched_wait_returns [OF st [unfolded Sched_wait_returns]] inv show ?thesis
    by (elim conjE disjE exE; simp add: inv_count_def)
next
  case Sched_close_results
  from step_Sched_close_results [OF st [unfolded Sched_close_results]] inv show ?thesis
    by (elim conjE disjE exE; simp add: inv_count_def)
next
  case (Worker_park w)
  from step_Worker_park [OF st [unfolded Worker_park]] show ?thesis
    by (intro inv_count_frame [OF inv]) auto
next
  case (Worker_hit_done w invoked t)
  from step_Worker_hit_done [OF st [unfolded Worker_hit_done]] show ?thesis
    by (intro inv_count_frame [OF inv]) auto
next
  case (Worker_hit_panics w)
  from step_Worker_hit_panics [OF st [unfolded Worker_hit_panics]] show ?thesis
    by (intro inv_count_frame [OF inv]) auto
next
  case (Worker_crash w)
  from step_Worker_crash [OF st [unfolded Worker_crash]] show ?thesis
    by (intro inv_count_frame [OF inv]) auto
next
  case (Worker_deliver w)
  from step_Worker_deliver [OF st [unfolded Worker_deliver]] show ?thesis
    by (intro inv_count_frame [OF inv]) auto
next
  case (Worker_exit w)
  from step_Worker_exit [OF st [unfolded Worker_exit]] show ?thesis
    by (intro inv_count_frame [OF inv]) auto
next
  case Call_Stop
  from step_Call_Stop [OF st [unfolded Call_Stop]]
  have "s' = s \<or> s' = s\<lparr>stoppers := stoppers s + 1\<rparr>" by blast
  then show ?thesis
  proof
    assume "s' = s"
    with inv show ?thesis by simp
  next
    assume "s' = s\<lparr>stoppers := stoppers s + 1\<rparr>"
    then show ?thesis by (intro inv_count_frame [OF inv]) simp_all
  qed
next
  case Stop_closes
  from step_Stop_closes [OF st [unfolded Stop_closes]]
  consider p where "s' = s\<lparr>crashed := Some p\<rparr>"
    | "s' = s\<lparr>stop_chan := Closed_chan, stoppers := stoppers s - 1\<rparr>"
    by blast
  then show ?thesis
  proof cases
    case 1
    then show ?thesis by (intro inv_count_frame [OF inv]) simp_all
  next
    case 2
    with inv show ?thesis by (simp add: inv_count_def)
  qed
qed

lemma inv_count_Burn: "inv_count rate du (Burn b)"
  by (simp add: inv_count_def Burn_def)

subsection \<open>Evaluation of the concrete runs, and runs that end\<close>

lemmas model_defs = Burn_def step_def sched_start_def sched_now_def sched_select_def
  sched_close_ticks_def sched_wait_returns_def sched_close_results_def worker_park_def
  worker_exit_def worker_hit_done_def worker_hit_panics_def worker_crash_def
  worker_deliver_def call_Stop_def stop_closes_def
  hits_of_def Seconds_u64_values next_of_def interval_of_def time_Add_def time_Sub_def
  maxDuration_def minDuration_def max_time_def hit_def

lemma run_three_final: "run 3 1500000000 (Burn burner_one) run_three = Some final_three"
  by (simp add: run_three_def final_three_def burner_one_def model_defs)

text \<open>Every state that a run of \<^verbatim>\<open>Burn\<close> reaches satisfies the four invariants.\<close>

lemma reachable_invariants:
  assumes "run rate du (Burn b) es = Some s"
  shows "inv_shutdown s" "inv_results s" "inv_clock s" "inv_count rate du s"
proof -
  show "inv_shutdown s"
    using inv_shutdown_step inv_shutdown_Burn assms by (rule run_invariant)
  show "inv_results s"
    using inv_results_step inv_results_Burn assms by (rule run_invariant)
  show "inv_clock s"
    using inv_clock_step inv_clock_Burn assms by (rule run_invariant)
  show "inv_count rate du s"
    using inv_count_step inv_count_Burn assms by (rule run_invariant)
qed

text \<open>
  Without the stop signal and without a panic of the division or of an invocation, the
  closed stream has delivered as many Results as the counter needs ticks to reach
  \<^verbatim>\<open>hits\<close>.
\<close>

lemma results_count:
  assumes r: "run rate du (Burn b) es = Some s"
    and closed: "results_closed s" and nostop: "stop_chan s \<noteq> Closed_chan"
    and rate: "rate \<noteq> 0" and returned: "\<forall>w \<in> set (workers s). w = Exited"
  shows "length (results_log s) = hits_bound rate du"
proof -
  note invs = reachable_invariants [OF r]
  from invs(1) closed have ended: "phase s = Ended"
    by (auto simp: inv_shutdown_def)
  from invs(4) ended nostop rate have "length (ticks_log s) = hits_bound rate du"
    by (cases "loop_exit s"; cases "the (loop_exit s)") (auto simp: inv_count_def)
  moreover from invs(2) returned have "mset (ticks_log s) = mset (map Timestamp (results_log s))"
    by (simp add: inv_results_def Exited_in_flight)
  then have "length (ticks_log s) = length (results_log s)"
    by (metis length_map size_mset)
  ultimately show ?thesis by simp
qed

lemma hits_of_product:
  assumes "0 \<le> du" "du < 16777216000000000"
    and "unat rate * nat (du div 1000000000) < 2 ^ 64"
  shows "unat (hits_of rate du) = unat rate * nat (du div 1000000000)"
proof -
  from assms(1,2) have "Seconds_u64 du = of_nat (nat (du div 1000000000))"
    by (simp add: Seconds_u64_exact pos_imp_zdiv_nonneg_iff)
  then have "hits_of rate du = of_nat (unat rate * nat (du div 1000000000))"
    by (simp add: hits_of_def)
  with assms(3) show ?thesis
    by (simp only: unat_of_nat_u64)
qed

lemma run_rate_zero_final: "run 0 500000000 (Burn burner_one) run_rate_zero = Some final_rate_zero"
  by (simp add: run_rate_zero_def final_rate_zero_def burner_one_def model_defs)

lemma run_half_second_state:
  "run 10 500000000 (Burn burner_open) run_half_second = Some state_half_second"
  by (simp add: run_half_second_def state_half_second_def burner_open_def model_defs)

lemma run_selecting_state:
  "run 3 1500000000 (Burn burner_one) run_selecting = Some state_selecting"
  by (simp add: run_selecting_def state_selecting_def burner_one_def model_defs)

text \<open>
  The distance between \<open>n / R\<close> seconds and \<open>n\<close> intervals of \<open>10^9 div R\<close>
  nanoseconds.
\<close>

lemma ideal_minus_intended:
  fixes R n :: nat
  assumes "0 < R"
  shows "real n * (1000000000 / real R) - real n * real (1000000000 div R)
         = real n * real (1000000000 mod R) / real R"
proof -
  define q m where "q = 1000000000 div R" and "m = 1000000000 mod R"
  have "q * R + m = 1000000000" by (simp add: q_def m_def)
  then have "real (q * R + m) = 1000000000" by simp
  then have e: "(1000000000 :: real) = real q * real R + real m" by simp
  have "(real q * real R + real m) / real R = real q + real m / real R"
    using assms by (simp add: add_divide_distrib)
  with e have "(1000000000 :: real) / real R = real q + real m / real R" by simp
  then have "real n * (1000000000 / real R) - real n * real q = real n * real m / real R"
    by (simp add: algebra_simps)
  then show ?thesis by (simp add: q_def m_def)
qed

lemma hits_of_subsecond:
  assumes "- 1000000000 < du" "du < 1000000000"
  shows "hits_of rate du = 0"
  using assms by (simp add: hits_of_def Seconds_u64_subsecond)

lemma run_hitting_state:
  "run 3 1500000000 (Burn burner_one) run_hitting = Some state_hitting"
  by (simp add: run_hitting_def state_hitting_def burner_one_def model_defs)

lemma run_append:
  "run rate du s (es @ es') =
     (case run rate du s es of None \<Rightarrow> None | Some s' \<Rightarrow> run rate du s' es')"
  by (induction es arbitrary: s) (simp_all split: option.splits)

lemma results_open_if_alive:
  assumes "inv_shutdown s" "w < length (workers s)" "alive (workers s ! w) = 1"
  shows "\<not> results_closed s"
proof
  assume "results_closed s"
  with assms(1) have "live (workers s) = 0" by (auto simp: inv_shutdown_def)
  with assms(2,3) show False by (auto dest: live_0_alive)
qed

lemma run_stop_first_final:
  "run 3 1500000000 (Burn burner_open) run_stop_first = Some final_stop_first"
  by (simp add: run_stop_first_def final_stop_first_def burner_open_def model_defs)

lemma run_stop_unparked_state:
  "run 3 1500000000 (Burn burner_open) run_stop_unparked = Some state_stop_unparked"
  by (simp add: run_stop_unparked_def state_stop_unparked_def burner_open_def model_defs)

lemma quiet_step:
  assumes q: "quiet s" and st: "step rate du s e = Some s'"
  shows "quiet s'"
proof (cases e)
  case (Sched_start t)
  from step_Sched_start [OF st [unfolded Sched_start]] q show ?thesis
    by (simp add: quiet_def)
next
  case (Sched_now t)
  from step_Sched_now [OF st [unfolded Sched_now]] q show ?thesis
    by (simp add: quiet_def)
next
  case (Sched_select woke c)
  from step_Sched_select [OF st [unfolded Sched_select]] q show ?thesis
    by (simp add: quiet_def)
next
  case Sched_close_ticks
  from step_Sched_close_ticks [OF st [unfolded Sched_close_ticks]] q show ?thesis
    by (auto simp: quiet_def)
next
  case Sched_wait_returns
  from step_Sched_wait_returns [OF st [unfolded Sched_wait_returns]] q show ?thesis
    by (auto simp: quiet_def)
next
  case Sched_close_results
  from step_Sched_close_results [OF st [unfolded Sched_close_results]] q show ?thesis
    by (auto simp: quiet_def)
next
  case (Worker_park w)
  from step_Worker_park [OF st [unfolded Worker_park]] q show ?thesis
    by (auto simp: quiet_def)
next
  case (Worker_hit_done w invoked t)
  from step_Worker_hit_done [OF st [unfolded Worker_hit_done]] q show ?thesis
    by (auto simp: quiet_def)
next
  case (Worker_hit_panics w)
  from step_Worker_hit_panics [OF st [unfolded Worker_hit_panics]] q show ?thesis
    by (auto simp: quiet_def)
next
  case (Worker_crash w)
  from step_Worker_crash [OF st [unfolded Worker_crash]] q show ?thesis
    by (auto simp: quiet_def)
next
  case (Worker_deliver w)
  from step_Worker_deliver [OF st [unfolded Worker_deliver]] q show ?thesis
    by (auto simp: quiet_def)
next
  case (Worker_exit w)
  from step_Worker_exit [OF st [unfolded Worker_exit]] q show ?thesis
    by (auto simp: quiet_def)
next
  case Call_Stop
  from step_Call_Stop [OF st [unfolded Call_Stop]] q show ?thesis
    by (auto simp: quiet_def)
next
  case Stop_closes
  from step_Stop_closes [OF st [unfolded Stop_closes]] q show ?thesis
    by (auto simp: quiet_def)
qed

lemma in_flight_subset_empty:
  assumes "inv_results s" "ticks_log s = []"
  shows "results_log s = []"
  using assms by (simp add: inv_results_def)

text \<open>
  Runs that end. After \<^verbatim>\<open>close(ticks)\<close> idle workers leave one after the other and the
  scheduler closes the stream (\<open>drain_run\<close>); from a ready state one tick is handed over
  and answered (\<open>cycle_run\<close>), and again until the counter equals \<^verbatim>\<open>hits\<close>
  (\<open>loop_run\<close>); so \<^verbatim>\<open>Burn\<close> has a run that closes the stream without \<^verbatim>\<open>Stop\<close>
  (\<open>Burn_can_complete\<close>).
\<close>

lemma exited_prefix_update:
  assumes "k < length ws"
  shows "(replicate k Exited @ drop k ws)[k := Exited] = replicate (Suc k) Exited @ drop (Suc k) ws"
proof -
  from assms have "drop k ws = ws ! k # drop (Suc k) ws"
    by (simp add: Cons_nth_drop_Suc)
  then show ?thesis
    by (simp add: list_update_append replicate_app_Cons_same)
qed

lemma exited_prefix_nth:
  assumes "k < length ws"
  shows "(replicate k Exited @ drop k ws) ! k = ws ! k"
  using assms by (simp add: nth_append)

lemma exits_run:
  assumes "crashed s = None" "ticks_closed s" "\<forall>w \<in> set (workers s). idle w"
  shows "k \<le> length (workers s) \<Longrightarrow>
    run rate du s (exits k)
      = Some (s\<lparr>workers := replicate k Exited @ drop k (workers s), wg := wg s - int k\<rparr>)"
proof (induction k)
  case 0
  show ?case by (simp add: exits_def)
next
  case (Suc k)
  let ?mid = "s\<lparr>workers := replicate k Exited @ drop k (workers s), wg := wg s - int k\<rparr>"
  from Suc have mid: "run rate du s (exits k) = Some ?mid" and k: "k < length (workers s)"
    by simp_all
  from k assms(3) have "idle (workers s ! k)" by simp
  then have "workers s ! k = At_range \<or> workers s ! k = Parked"
    by (cases "workers s ! k") simp_all
  with k assms(1,2) have "step rate du ?mid (Worker_exit k)
      = Some (s\<lparr>workers := replicate (Suc k) Exited @ drop (Suc k) (workers s),
                wg := wg s - int (Suc k)\<rparr>)"
    by (simp add: step_def worker_exit_def exited_prefix_nth exited_prefix_update
        del: replicate_Suc)
  with mid show ?case
    by (simp add: exits_def run_append del: replicate_Suc)
qed

lemma drain_run:
  assumes "crashed s = None" "phase s = Deferred_close_ticks"
    and "\<not> ticks_closed s" "\<not> results_closed s"
    and "wg s = int (length (workers s))" "\<forall>w \<in> set (workers s). idle w"
  shows "run rate du s (drain (length (workers s)))
      = Some (s\<lparr>ticks_closed := True, workers := replicate (length (workers s)) Exited,
                wg := 0, results_closed := True, phase := Ended,
                crashed := (case loop_exit s of Some (Panicked p) \<Rightarrow> Some p | _ \<Rightarrow> None)\<rparr>)"
proof -
  let ?n = "length (workers s)"
  let ?s1 = "s\<lparr>ticks_closed := True, phase := Deferred_wait\<rparr>"
  from assms have 1: "step rate du s Sched_close_ticks = Some ?s1"
    by (simp add: step_def sched_close_ticks_def)
  from assms have 2: "run rate du ?s1 (exits ?n)
      = Some (?s1\<lparr>workers := replicate ?n Exited @ drop ?n (workers ?s1), wg := wg ?s1 - int ?n\<rparr>)"
    by (intro exits_run) simp_all
  let ?s2 = "?s1\<lparr>workers := replicate ?n Exited, wg := 0\<rparr>"
  from 2 assms(5) have 2: "run rate du ?s1 (exits ?n) = Some ?s2" by simp
  from assms have 3: "run rate du ?s2 [Sched_wait_returns, Sched_close_results]
      = Some (s\<lparr>ticks_closed := True, workers := replicate ?n Exited,
                wg := 0, results_closed := True, phase := Ended,
                crashed := (case loop_exit s of Some (Panicked p) \<Rightarrow> Some p | _ \<Rightarrow> None)\<rparr>)"
    by (simp add: step_def sched_wait_returns_def sched_close_results_def)
  from 1 2 3 show ?thesis
    by (simp add: drain_def run_append)
qed

lemma cycle_run:
  assumes "ready s"
  shows "\<exists>s'. run rate du s (cycle rate s) = Some s'
       \<and> crashed s' = None \<and> workers s' = workers s \<and> wg s' = wg s
       \<and> \<not> ticks_closed s' \<and> \<not> results_closed s' \<and> stop_chan s' = stop_chan s
       \<and> length (ticks_log s') = Suc (length (ticks_log s))
       \<and> done_n s' = done_n s + 1
       \<and> (if done_n s + 1 = hits_of rate du
           then phase s' = Deferred_close_ticks \<and> loop_exit s' = Some Hits_reached
           else phase s' = Looping \<and> loop_exit s' = None)"
proof -
  from assms have w: "0 < length (workers s)" "workers s ! 0 = At_range"
    by (auto simp: ready_def)
  then have same: "(workers s)[0 := At_range] = workers s"
    by (metis list_update_id)
  from assms w same show ?thesis
    by (simp add: ready_def cycle_def Let_def step_def worker_park_def sched_now_def
        sched_select_def worker_hit_done_def worker_deliver_def)
qed

lemma cycle_no_Stop: "Call_Stop \<notin> set (cycle rate s)"
  by (simp add: cycle_def Let_def)

lemma loop_run:
  assumes "ready s" "done_n s = of_nat (length (ticks_log s))"
    and "length (ticks_log s) < hits_bound rate du"
  shows "\<exists>es s'. run rate du s es = Some s' \<and> Call_Stop \<notin> set es
       \<and> crashed s' = None \<and> phase s' = Deferred_close_ticks
       \<and> loop_exit s' = Some Hits_reached
       \<and> workers s' = workers s \<and> wg s' = wg s
       \<and> \<not> ticks_closed s' \<and> \<not> results_closed s' \<and> stop_chan s' = stop_chan s"
  using assms
proof (induction "hits_bound rate du - length (ticks_log s)" arbitrary: s rule: less_induct)
  case less
  from cycle_run [OF less.prems(1), of rate du] obtain s1
    where r1: "run rate du s (cycle rate s) = Some s1"
      and p1: "crashed s1 = None" "workers s1 = workers s" "wg s1 = wg s"
        "\<not> ticks_closed s1" "\<not> results_closed s1" "stop_chan s1 = stop_chan s"
      and l1: "length (ticks_log s1) = Suc (length (ticks_log s))"
      and d1: "done_n s1 = done_n s + 1"
      and e1: "if done_n s + 1 = hits_of rate du
           then phase s1 = Deferred_close_ticks \<and> loop_exit s1 = Some Hits_reached
           else phase s1 = Looping \<and> loop_exit s1 = None"
    by blast
  show ?case
  proof (cases "done_n s + 1 = hits_of rate du")
    case True
    with e1 r1 p1 cycle_no_Stop [of rate s] show ?thesis by auto
  next
    case False
    with less.prems(2,3) have lt: "Suc (length (ticks_log s)) < hits_bound rate du"
      by (intro count_continues) simp_all
    from False e1 p1 less.prems(1) have rd: "ready s1" by (simp add: ready_def)
    from d1 less.prems(2) l1 have dn: "done_n s1 = of_nat (length (ticks_log s1))"
      by (simp add: add.commute)
    from lt l1 have "hits_bound rate du - length (ticks_log s1)
        < hits_bound rate du - length (ticks_log s)" "length (ticks_log s1) < hits_bound rate du"
      by simp_all
    from less.hyps [OF this(1) rd dn this(2)] obtain es s'
      where "run rate du s1 es = Some s'" "Call_Stop \<notin> set es"
        "crashed s' = None" "phase s' = Deferred_close_ticks"
        "loop_exit s' = Some Hits_reached"
        "workers s' = workers s1" "wg s' = wg s1"
        "\<not> ticks_closed s'" "\<not> results_closed s'" "stop_chan s' = stop_chan s1"
      by blast
    with r1 p1 cycle_no_Stop [of rate s]
    have "run rate du s (cycle rate s @ es) = Some s' \<and> Call_Stop \<notin> set (cycle rate s @ es)
       \<and> crashed s' = None \<and> phase s' = Deferred_close_ticks
       \<and> loop_exit s' = Some Hits_reached
       \<and> workers s' = workers s \<and> wg s' = wg s
       \<and> \<not> ticks_closed s' \<and> \<not> results_closed s' \<and> stop_chan s' = stop_chan s"
      by (simp add: run_append)
    then show ?thesis by blast
  qed
qed

lemma drain_no_Stop: "Call_Stop \<notin> set (drain n)"
  by (auto simp: drain_def exits_def)

lemma start_ready:
  assumes "rate \<noteq> 0" "stopch b \<noteq> Closed_chan"
  shows "\<exists>es s. run rate du (Burn b) es = Some s \<and> Call_Stop \<notin> set es \<and> ready s
       \<and> ticks_log s = [] \<and> done_n s = 0 \<and> stop_chan s = stopch b"
proof (cases "unat (Workers b) = 0")
  case True
  define es where "es = [Sched_start 0, Sched_now 0, Sched_select 0 Default_case]"
  define s where "s = (Burn b)\<lparr>phase := Looping, clock := 0, now_r := 0, wg := 1,
    workers := [At_range]\<rparr>"
  from True assms have "run rate du (Burn b) es = Some s"
    by (simp add: es_def s_def Burn_def step_def sched_start_def sched_now_def
        sched_select_def Let_def next_of_def time_Add_def time_Sub_def maxDuration_def
        minDuration_def)
  moreover have "Call_Stop \<notin> set es" by (simp add: es_def)
  moreover have "ready s" "ticks_log s = []" "done_n s = 0" "stop_chan s = stopch b"
    by (simp_all add: s_def ready_def Burn_def)
  ultimately show ?thesis by blast
next
  case False
  define s where "s = (Burn b)\<lparr>phase := Looping, clock := 0\<rparr>"
  from assms have "run rate du (Burn b) [Sched_start 0] = Some s"
    by (simp add: s_def Burn_def step_def sched_start_def)
  moreover have "Call_Stop \<notin> set [Sched_start 0]" by simp
  moreover from False have "ready s" "ticks_log s = []" "done_n s = 0" "stop_chan s = stopch b"
    by (simp_all add: s_def ready_def Burn_def)
  ultimately show ?thesis by blast
qed

lemma Burn_can_complete:
  assumes "rate \<noteq> 0" "stopch b \<noteq> Closed_chan"
  shows "\<exists>es s. run rate du (Burn b) es = Some s \<and> Call_Stop \<notin> set es
       \<and> results_closed s \<and> crashed s = None \<and> stop_chan s = stopch b
       \<and> (\<forall>w \<in> set (workers s). w = Exited)"
proof -
  from start_ready [OF assms, of du] obtain es0 s0
    where 0: "run rate du (Burn b) es0 = Some s0" "Call_Stop \<notin> set es0" "ready s0"
      "ticks_log s0 = []" "done_n s0 = 0" "stop_chan s0 = stopch b"
    by blast
  from 0 positive_hits_bound [of rate du]
  have "done_n s0 = of_nat (length (ticks_log s0))" "length (ticks_log s0) < hits_bound rate du"
    by simp_all
  from loop_run [OF 0(3) this] obtain es1 s1
    where 1: "run rate du s0 es1 = Some s1" "Call_Stop \<notin> set es1"
      "crashed s1 = None" "phase s1 = Deferred_close_ticks"
      "loop_exit s1 = Some Hits_reached"
      "workers s1 = workers s0" "wg s1 = wg s0"
      "\<not> ticks_closed s1" "\<not> results_closed s1" "stop_chan s1 = stop_chan s0"
    by blast
  from 0(3) 1 have "wg s1 = int (length (workers s1))" "\<forall>w \<in> set (workers s1). idle w"
    by (auto simp: ready_def)
  from drain_run [OF 1(3,4,8,9) this, of rate du] 1(5)
  obtain s2 where 2: "run rate du s1 (drain (length (workers s1))) = Some s2"
    "results_closed s2" "crashed s2 = None" "stop_chan s2 = stop_chan s1"
    "\<forall>w \<in> set (workers s2). w = Exited"
    by simp
  from 0 1 2 drain_no_Stop [of "length (workers s1)"]
  have "run rate du (Burn b) (es0 @ es1 @ drain (length (workers s1))) = Some s2
     \<and> Call_Stop \<notin> set (es0 @ es1 @ drain (length (workers s1)))
     \<and> results_closed s2 \<and> crashed s2 = None \<and> stop_chan s2 = stopch b
     \<and> (\<forall>w \<in> set (workers s2). w = Exited)"
    by (simp add: run_append)
  then show ?thesis by blast
qed

text \<open>As long as no tick has been sent and \<^verbatim>\<open>ticks\<close> is open, every worker is idle.\<close>

lemma idle_live: "\<forall>w \<in> set ws. idle w \<Longrightarrow> live ws = length ws"
proof (induction ws)
  case Nil
  then show ?case by (simp add: live_def)
next
  case (Cons a ws)
  then show ?case by (cases a) (simp_all add: live_def)
qed

lemma inv_idle_step:
  assumes inv: "inv_idle s" and st: "step rate du s e = Some s'"
  shows "inv_idle s'"
proof (cases e)
  case (Sched_start t)
  from step_Sched_start [OF st [unfolded Sched_start]] inv show ?thesis
    by (auto simp: inv_idle_def)
next
  case (Sched_now t)
  from step_Sched_now [OF st [unfolded Sched_now]] inv show ?thesis
    by (auto simp: inv_idle_def)
next
  case (Sched_select woke c)
  show ?thesis
  proof (cases c)
    case (Send_tick w)
    from step_Send_tick [OF st [unfolded Sched_select Send_tick]] show ?thesis
      by (auto simp: inv_idle_def)
  next
    case Stop_case
    from step_Stop_case [OF st [unfolded Sched_select Stop_case]] inv show ?thesis
      by (auto simp: inv_idle_def)
  next
    case Default_case
    from step_Default_case [OF st [unfolded Sched_select Default_case]] inv show ?thesis
      by (auto simp: inv_idle_def)
  qed
next
  case Sched_close_ticks
  from step_Sched_close_ticks [OF st [unfolded Sched_close_ticks]] inv show ?thesis
    by (auto simp: inv_idle_def)
next
  case Sched_wait_returns
  from step_Sched_wait_returns [OF st [unfolded Sched_wait_returns]] inv show ?thesis
    by (auto simp: inv_idle_def)
next
  case Sched_close_results
  from step_Sched_close_results [OF st [unfolded Sched_close_results]] inv show ?thesis
    by (auto simp: inv_idle_def)
next
  case (Worker_park w)
  from step_Worker_park [OF st [unfolded Worker_park]]
  have s': "s' = s\<lparr>workers := (workers s)[w := Parked]\<rparr>" by simp
  with inv show ?thesis
    by (auto simp: inv_idle_def dest!: in_set_update)
next
  case (Worker_hit_done w invoked t)
  from step_Worker_hit_done [OF st [unfolded Worker_hit_done]] obtain tm
    where w: "w < length (workers s)" "workers s ! w = Hitting tm"
      and s': "s' = s\<lparr>workers := (workers s)[w := Sending (hit tm invoked t)], clock := t\<rparr>"
    by auto
  from w have "\<not> (\<forall>w \<in> set (workers s). idle w)"
    by (metis idle.simps(3) nth_mem)
  with inv s' show ?thesis by (auto simp: inv_idle_def)
next
  case (Worker_hit_panics w)
  from step_Worker_hit_panics [OF st [unfolded Worker_hit_panics]] obtain tm
    where w: "w < length (workers s)" "workers s ! w = Hitting tm"
      and s': "ticks_log s' = ticks_log s" "ticks_closed s' = ticks_closed s"
    by auto
  from w have "\<not> (\<forall>w \<in> set (workers s). idle w)"
    by (metis idle.simps(3) nth_mem)
  with inv s' show ?thesis by (auto simp: inv_idle_def)
next
  case (Worker_crash w)
  from step_Worker_crash [OF st [unfolded Worker_crash]] inv show ?thesis
    by (auto simp: inv_idle_def)
next
  case (Worker_deliver w)
  from step_Worker_deliver [OF st [unfolded Worker_deliver]] obtain r
    where w: "w < length (workers s)" "workers s ! w = Sending r"
      and s': "ticks_log s' = ticks_log s" "ticks_closed s' = ticks_closed s"
    by auto
  from w have "\<not> (\<forall>w \<in> set (workers s). idle w)"
    by (metis idle.simps(4) nth_mem)
  with inv s' show ?thesis by (auto simp: inv_idle_def)
next
  case (Worker_exit w)
  from step_Worker_exit [OF st [unfolded Worker_exit]] show ?thesis
    by (simp add: inv_idle_def)
next
  case Call_Stop
  from step_Call_Stop [OF st [unfolded Call_Stop]] inv show ?thesis
    by (auto simp: inv_idle_def)
next
  case Stop_closes
  from step_Stop_closes [OF st [unfolded Stop_closes]] inv show ?thesis
    by (auto simp: inv_idle_def)
qed

lemma inv_idle_Burn: "inv_idle (Burn b)"
  by (simp add: inv_idle_def Burn_def)

lemma reachable_idle:
  assumes "run rate du (Burn b) es = Some s"
  shows "inv_idle s"
  using inv_idle_step inv_idle_Burn assms by (rule run_invariant)

text \<open>
  With \<^verbatim>\<open>hits = 0\<close> the run that ends by the hit count has sent \<open>2 ^ 64\<close> ticks: the
  counter has wrapped around to 0.
\<close>

lemma hit_count_after_wrap:
  assumes "rate \<noteq> 0" "hits_of rate du = 0" "stopch b \<noteq> Closed_chan"
  shows "\<exists>es s. run rate du (Burn b) es = Some s \<and> Call_Stop \<notin> set es
       \<and> loop_exit s = Some Hits_reached \<and> length (ticks_log s) = 2 ^ 64"
proof -
  from Burn_can_complete [OF assms(1,3), of du] obtain es s
    where r: "run rate du (Burn b) es = Some s" "Call_Stop \<notin> set es"
      "results_closed s" "crashed s = None" "stop_chan s = stopch b"
    by blast
  note invs = reachable_invariants [OF r(1)]
  from invs(1) r(3) have "phase s = Ended" by (simp add: inv_shutdown_def)
  with invs(4) obtain x where x: "loop_exit s = Some x" by (auto simp: inv_count_def)
  with invs(4) r(5) assms(1,3) have "x = Hits_reached"
    by (cases x) (auto simp: inv_count_def)
  with x invs(4) assms(2) have "loop_exit s = Some Hits_reached" "length (ticks_log s) = 2 ^ 64"
    by (simp_all add: inv_count_def hits_bound_def)
  with r show ?thesis by blast
qed

subsection \<open>Ticks and their intended instants\<close>

lemma inv_sched_frame:
  assumes "inv_sched rate s" "began s' = began s" "ticks_log s' = ticks_log s"
  shows "inv_sched rate s'"
  using assms by (simp add: inv_sched_def)

lemma inv_sched_empty: "ticks_log s' = [] \<Longrightarrow> inv_sched rate s'"
  by (simp add: inv_sched_def)

lemma inv_sched_snoc:
  assumes "inv_sched rate s" "began s' = began s" "ticks_log s' = ticks_log s @ [t]"
    and "next_of rate (began s) (of_nat (length (ticks_log s))) \<le> t"
  shows "inv_sched rate s'"
  unfolding inv_sched_def
proof (intro allI impI)
  fix k
  assume "k < length (ticks_log s')"
  with assms(3) have "k < length (ticks_log s) \<or> k = length (ticks_log s)" by auto
  then show "next_of rate (began s') (of_nat k) \<le> ticks_log s' ! k"
  proof
    assume "k < length (ticks_log s)"
    with assms(1-3) show ?thesis by (simp add: inv_sched_def nth_append)
  next
    assume "k = length (ticks_log s)"
    with assms(2-4) show ?thesis by (simp add: nth_append)
  qed
qed

lemma intended_le_max_time: "nxt \<le> max_time nxt now"
  by (simp add: max_time_def)

lemma inv_sched_step:
  assumes cnt: "inv_count rate du s" and inv: "inv_sched rate s"
    and st: "step rate du s e = Some s'"
  shows "inv_sched rate s'"
proof (cases e)
  case (Sched_start t)
  from step_Sched_start [OF st [unfolded Sched_start]] cnt have "ticks_log s' = []"
    by (elim conjE disjE; simp add: inv_count_def)
  then show ?thesis by (rule inv_sched_empty)
next
  case (Sched_now t)
  from step_Sched_now [OF st [unfolded Sched_now]] show ?thesis
    by (intro inv_sched_frame [OF inv]) auto
next
  case (Sched_select woke c)
  note sel = step_Sched_select [OF st [unfolded Sched_select]]
  show ?thesis
  proof (cases c)
    case (Send_tick w)
    define tick where "tick = max_time (next_of rate (began s) (done_n s)) (now_r s)"
    from sel cnt have dn: "done_n s = of_nat (length (ticks_log s))"
      by (simp add: inv_count_def)
    from step_Send_tick [OF st [unfolded Sched_select Send_tick]]
    have s': "began s' = began s" "ticks_log s' = ticks_log s @ [tick]"
      by (auto simp: tick_def)
    have "next_of rate (began s) (of_nat (length (ticks_log s))) \<le> tick"
      unfolding tick_def dn by (rule intended_le_max_time)
    with inv s' show ?thesis by (rule inv_sched_snoc)
  next
    case Stop_case
    from step_Stop_case [OF st [unfolded Sched_select Stop_case]] show ?thesis
      by (intro inv_sched_frame [OF inv]) auto
  next
    case Default_case
    from step_Default_case [OF st [unfolded Sched_select Default_case]] show ?thesis
      by (intro inv_sched_frame [OF inv]) auto
  qed
next
  case Sched_close_ticks
  from step_Sched_close_ticks [OF st [unfolded Sched_close_ticks]] show ?thesis
    by (intro inv_sched_frame [OF inv]) auto
next
  case Sched_wait_returns
  from step_Sched_wait_returns [OF st [unfolded Sched_wait_returns]] show ?thesis
    by (intro inv_sched_frame [OF inv]) auto
next
  case Sched_close_results
  from step_Sched_close_results [OF st [unfolded Sched_close_results]] show ?thesis
    by (intro inv_sched_frame [OF inv]) auto
next
  case (Worker_park w)
  from step_Worker_park [OF st [unfolded Worker_park]] show ?thesis
    by (intro inv_sched_frame [OF inv]) auto
next
  case (Worker_hit_done w invoked t)
  from step_Worker_hit_done [OF st [unfolded Worker_hit_done]] show ?thesis
    by (intro inv_sched_frame [OF inv]) auto
next
  case (Worker_hit_panics w)
  from step_Worker_hit_panics [OF st [unfolded Worker_hit_panics]] show ?thesis
    by (intro inv_sched_frame [OF inv]) auto
next
  case (Worker_crash w)
  from step_Worker_crash [OF st [unfolded Worker_crash]] show ?thesis
    by (intro inv_sched_frame [OF inv]) auto
next
  case (Worker_deliver w)
  from step_Worker_deliver [OF st [unfolded Worker_deliver]] show ?thesis
    by (intro inv_sched_frame [OF inv]) auto
next
  case (Worker_exit w)
  from step_Worker_exit [OF st [unfolded Worker_exit]] show ?thesis
    by (intro inv_sched_frame [OF inv]) auto
next
  case Call_Stop
  from step_Call_Stop [OF st [unfolded Call_Stop]] show ?thesis
    by (intro inv_sched_frame [OF inv]) auto
next
  case Stop_closes
  from step_Stop_closes [OF st [unfolded Stop_closes]] show ?thesis
    by (intro inv_sched_frame [OF inv]) auto
qed

lemma reachable_sched:
  assumes "run rate du (Burn b) es = Some s"
  shows "inv_sched rate s"
proof -
  have "inv_count rate du s \<and> inv_sched rate s"
  proof (rule run_invariant [where P = "\<lambda>s. inv_count rate du s \<and> inv_sched rate s",
        OF _ _ assms])
    fix s e s'
    assume "inv_count rate du s \<and> inv_sched rate s" "step rate du s e = Some s'"
    then show "inv_count rate du s' \<and> inv_sched rate s'"
      using inv_count_step inv_sched_step by blast
  next
    show "inv_count rate du (Burn b) \<and> inv_sched rate (Burn b)"
      by (intro conjI inv_count_Burn inv_sched_empty) (simp add: Burn_def)
  qed
  then show ?thesis ..
qed

text \<open>
  \<^verbatim>\<open>time.Sleep(next.Sub(now))\<close> returns at or after the intended instant, whenever the
  clock was read at or after \<^verbatim>\<open>began\<close>.
\<close>

lemma woke_after_intended:
  assumes "now \<le> woke" and "\<not> woke < now + time_Sub nxt now"
    and "nxt - now \<le> maxDuration"
  shows "nxt \<le> woke"
  using assms by (auto simp: time_Sub_def maxDuration_def minDuration_def split: if_splits)

lemma next_of_near: "t0 \<le> now \<Longrightarrow> next_of rate t0 d - now \<le> maxDuration"
  using sint_lt [of "d * interval_of rate"]
  by (simp add: next_of_def time_Add_def maxDuration_def)

lemma run_seven_ticks:
  "map_option ticks_log (run 3 3000000000 (Burn burner_one) run_seven)
     = Some [0, 333333333, 666666666, 999999999, 1333333332, 1666666665, 1999999998]"
  by (simp add: run_seven_def burner_one_def model_defs)

subsection \<open>The shutdown completes\<close>


















subsection \<open>Stop in two actions\<close>

text \<open>
  A call of \<^verbatim>\<open>Stop\<close> that no other call overlaps does what the sequential \<open>Stop_chan\<close>
  does. Two calls that overlap on an open channel can both take the default case, and the
  second \<^verbatim>\<open>close\<close> panics.
\<close>

lemma Stop_alone:
  assumes "crashed s = None"
  shows "stop_chan s = Closed_chan \<Longrightarrow>
           step rate du s Call_Stop = Some s \<and> Stop_chan (stop_chan s) = Inr (stop_chan s)"
    and "stop_chan s = Open_chan \<Longrightarrow>
           \<exists>s'. run rate du s [Call_Stop, Stop_closes] = Some s' \<and> crashed s' = None
             \<and> stoppers s' = stoppers s \<and> Stop_chan (stop_chan s) = Inr (stop_chan s')"
    and "stop_chan s = Nil_chan \<Longrightarrow>
           \<exists>s'. run rate du s [Call_Stop, Stop_closes] = Some s'
             \<and> Stop_chan (stop_chan s) = Inl Close_of_nil_channel
             \<and> crashed s' = Some Close_of_nil_channel"
  using assms by (simp_all add: step_def call_Stop_def stop_closes_def Stop_chan_def)

lemma Stop_overlapping:
  assumes "crashed s = None" "stop_chan s = Open_chan"
  shows "\<exists>s'. run rate du s [Call_Stop, Call_Stop, Stop_closes, Stop_closes] = Some s'
       \<and> crashed s' = Some Close_of_closed_channel"
  using assms by (simp add: step_def call_Stop_def stop_closes_def)

subsection \<open>A tick lost in a panic\<close>

lemma run_panic_final: "run 1 1000000000 (Burn burner_one) run_panic = Some final_panic"
  by (simp add: run_panic_def final_panic_def burner_one_def model_defs)

lemma run_stop_in_flight_final:
  "run 1 1000000000 (Burn burner_one) run_stop_in_flight = Some final_stop_in_flight"
  by (simp add: run_stop_in_flight_def final_stop_in_flight_def burner_one_def model_defs)

text \<open>
  The ticks sent are, one for one, the timestamps of the Results received and the ticks
  that workers hold. A worker inside \<^verbatim>\<open>hit\<close> whose invocation returns goes on to the send
  of one Result with the timestamp of its tick, and that send proceeds as soon as the
  caller receives; a tick held by a panicking worker is never answered.
\<close>

lemma tick_accounting:
  assumes "run rate du (Burn b) es = Some s"
  shows "mset (ticks_log s) = mset (map Timestamp (results_log s)) + in_flight (workers s)"
    and "w < length (workers s) \<Longrightarrow> workers s ! w = Hitting tm \<Longrightarrow> crashed s = None \<Longrightarrow>
         clock s \<le> t \<Longrightarrow>
         step rate du s (Worker_hit_done w invoked t)
           = Some (s\<lparr>workers := (workers s)[w := Sending (hit tm invoked t)], clock := t\<rparr>)"
    and "w < length (workers s) \<Longrightarrow> workers s ! w = Sending r \<Longrightarrow> crashed s = None \<Longrightarrow>
         step rate du s (Worker_deliver w)
           = Some (s\<lparr>workers := (workers s)[w := At_range], results_log := results_log s @ [r]\<rparr>)"
    and "w < length (workers s) \<Longrightarrow> workers s ! w = Panicking tm \<Longrightarrow>
         length (results_log s) < length (ticks_log s)"
proof -
  note sh = reachable_invariants(1) [OF assms] and res = reachable_invariants(2) [OF assms]
  from res show 1: "mset (ticks_log s) = mset (map Timestamp (results_log s)) + in_flight (workers s)"
    by (simp add: inv_results_def)
  show "step rate du s (Worker_hit_done w invoked t)
           = Some (s\<lparr>workers := (workers s)[w := Sending (hit tm invoked t)], clock := t\<rparr>)"
    if "w < length (workers s)" "workers s ! w = Hitting tm" "crashed s = None" "clock s \<le> t"
    using that by (simp add: step_def worker_hit_done_def)
  show "step rate du s (Worker_deliver w)
           = Some (s\<lparr>workers := (workers s)[w := At_range], results_log := results_log s @ [r]\<rparr>)"
    if w: "w < length (workers s)" "workers s ! w = Sending r" "crashed s = None"
  proof -
    from sh w have "\<not> results_closed s"
      by (intro results_open_if_alive [of s w]) simp_all
    with w show ?thesis by (simp add: step_def worker_deliver_def)
  qed
  show "length (results_log s) < length (ticks_log s)"
    if w: "w < length (workers s)" "workers s ! w = Panicking tm"
  proof -
    from in_flight_update [OF w(1), of Exited] w(2)
    have "in_flight (workers s) = in_flight ((workers s)[w := Exited]) + {#tm#}"
      by simp
    then have "0 < size (in_flight (workers s))" by simp
    moreover from 1 have "size (mset (ticks_log s))
        = size (mset (map Timestamp (results_log s))) + size (in_flight (workers s))"
      by simp
    ultimately show ?thesis by simp
  qed
qed


text \<open>
  Products that are 0 with neither factor 0, and a product that the rounding of
  \<^verbatim>\<open>Seconds\<close> keeps from being 0.
\<close>

lemma Seconds_u64_large: "Seconds_u64 33554431999999999 = 33554432"
  by code_simp

lemma hits_of_wraps:
  "hits_of 549755813888 33554431999999999 = 0"
  "hits_of 1099511627776 16777216999999999 = 1099511627776"
  "hits_of 1 16777216999999999 = 16777217"
  by (simp_all add: hits_of_def Seconds_u64_large Seconds_u64_rounds_up)

lemma run_wrap_state:
  "run 549755813888 33554431999999999 (Burn burner_open) run_half_second
     = Some state_half_second"
  by (simp add: run_half_second_def state_half_second_def burner_open_def hits_of_wraps
      Burn_def step_def sched_start_def sched_now_def sched_select_def worker_park_def
      call_Stop_def stop_closes_def next_of_def interval_of_def time_Add_def time_Sub_def
      maxDuration_def minDuration_def max_time_def)

subsection \<open>Claims\<close>

text \<open>
  At 3 calls per second for 1.5 seconds, \<open>run_three\<close> is a run without a call of
  \<^verbatim>\<open>Stop\<close> that closes the Result stream after 3 Results, where \<open>floor (R * D)\<close> is 4:
  \<^verbatim>\<open>hits\<close> is \<^verbatim>\<open>rate * uint64(du.Seconds())\<close>, the duration is cut to whole seconds
  before the product.
\<close>

theorem C1_counterexample:
  "map_option results_closed (run 3 1500000000 (Burn burner_one) run_three) = Some True
   \<and> map_option (length \<circ> results_log) (run 3 1500000000 (Burn burner_one) run_three) = Some 3
   \<and> Call_Stop \<notin> set run_three
   \<and> \<lfloor>3 * (1500000000 / 1000000000 :: real)\<rfloor> = 4"
proof -
  have "\<lfloor>3 * (1500000000 / 1000000000 :: real)\<rfloor> = 4" by (simp add: floor_eq_iff)
  then show ?thesis
    by (simp add: run_three_final final_three_def) (simp add: run_three_def)
qed

text \<open>
  Claim C1, amended: take a rate and a duration for which \<^verbatim>\<open>hits\<close>, the 64-bit product
  \<^verbatim>\<open>rate * uint64(du.Seconds())\<close>, is not 0. A run of \<^verbatim>\<open>Burn\<close> in which the stop signal
  is never raised and every worker returns (no invocation panics) has emitted exactly
  \<^verbatim>\<open>hits\<close> Results when the Result stream is closed. For a duration from 0 to less than
  \<open>2^24\<close> seconds \<^verbatim>\<open>hits\<close> is the rate times the whole seconds of the duration, when
  that fits 64 bits. When invocations return, there is such a run, without a call of
  \<^verbatim>\<open>Stop\<close>, that closes the stream.
\<close>

theorem Burn_emits_hits_Results:
  assumes "hits_of rate du \<noteq> 0" and "stopch b \<noteq> Closed_chan"
  shows "(\<forall>es s. run rate du (Burn b) es = Some s \<and> results_closed s \<and>
            stop_chan s \<noteq> Closed_chan \<and> (\<forall>w \<in> set (workers s). w = Exited) \<longrightarrow>
          length (results_log s) = unat (hits_of rate du))
       \<and> (0 \<le> du \<and> du < 16777216000000000 \<and> unat rate * nat (du div 1000000000) < 2 ^ 64 \<longrightarrow>
            unat (hits_of rate du) = unat rate * nat (du div 1000000000))
       \<and> (\<exists>es s. run rate du (Burn b) es = Some s \<and> Call_Stop \<notin> set es \<and>
            results_closed s \<and> stop_chan s \<noteq> Closed_chan \<and>
            (\<forall>w \<in> set (workers s). w = Exited) \<and> crashed s = None \<and>
            length (results_log s) = unat (hits_of rate du))"
proof -
  from assms(1) have rate: "rate \<noteq> 0" by (auto simp: hits_of_def)
  from assms(1) have hb: "hits_bound rate du = unat (hits_of rate du)"
    by (simp add: hits_bound_def)
  have 1: "\<forall>es s. run rate du (Burn b) es = Some s \<and> results_closed s \<and>
            stop_chan s \<noteq> Closed_chan \<and> (\<forall>w \<in> set (workers s). w = Exited) \<longrightarrow>
          length (results_log s) = unat (hits_of rate du)"
    using results_count [where rate = rate and du = du and b = b] rate hb by auto
  have 2: "0 \<le> du \<and> du < 16777216000000000 \<and> unat rate * nat (du div 1000000000) < 2 ^ 64 \<longrightarrow>
            unat (hits_of rate du) = unat rate * nat (du div 1000000000)"
    by (simp add: hits_of_product)
  from Burn_can_complete [OF rate assms(2), of du] obtain es s
    where c: "run rate du (Burn b) es = Some s" "Call_Stop \<notin> set es"
      "results_closed s" "crashed s = None" "stop_chan s = stopch b"
      "\<forall>w \<in> set (workers s). w = Exited"
    by blast
  with assms(2) 1 have "length (results_log s) = unat (hits_of rate du)" by simp
  with c assms(2)
  have 3: "\<exists>es s. run rate du (Burn b) es = Some s \<and> Call_Stop \<notin> set es \<and>
            results_closed s \<and> stop_chan s \<noteq> Closed_chan \<and>
            (\<forall>w \<in> set (workers s). w = Exited) \<and> crashed s = None \<and>
            length (results_log s) = unat (hits_of rate du)"
    by (intro exI [where x = es] exI [where x = s]) simp
  from 1 2 3 show ?thesis by blast
qed

theorem Burn_emits_hits_Results_witness:
  "hits_of 3 1500000000 = 3 \<and> stopch burner_one \<noteq> Closed_chan
   \<and> run 3 1500000000 (Burn burner_one) run_three = Some final_three
   \<and> results_closed final_three \<and> stop_chan final_three \<noteq> Closed_chan
   \<and> workers final_three = [Exited]
   \<and> length (results_log final_three) = unat (hits_of 3 1500000000)
   \<and> unat (hits_of 3 1500000000) = unat (3 :: u64) * nat (1500000000 div 1000000000)
   \<and> hits_of 1 16777216999999999 = 16777217
   \<and> (\<exists>es s. run 1 16777216999999999 (Burn burner_one) es = Some s \<and> Call_Stop \<notin> set es
         \<and> results_closed s \<and> crashed s = None \<and> length (results_log s) = 16777217)"
proof -
  have big: "hits_of 1 16777216999999999 = 16777217" by (rule hits_of_wraps)
  then have "hits_of 1 16777216999999999 \<noteq> 0" by simp
  from Burn_emits_hits_Results [OF this, of burner_one] big
  have long: "\<exists>es s. run 1 16777216999999999 (Burn burner_one) es = Some s \<and> Call_Stop \<notin> set es
         \<and> results_closed s \<and> crashed s = None \<and> length (results_log s) = 16777217"
    by (auto simp: burner_one_def)
  have v: "hits_of 3 1500000000 = 3" by (simp add: hits_of_def Seconds_u64_values)
  then have h: "hits_of 3 1500000000 \<noteq> 0" "stopch burner_one \<noteq> Closed_chan"
    by (simp_all add: burner_one_def)
  have c: "results_closed final_three" "stop_chan final_three \<noteq> Closed_chan"
    "workers final_three = [Exited]"
    by (simp_all add: final_three_def)
  note t = Burn_emits_hits_Results [OF h]
  from t run_three_final c
  have "length (results_log final_three) = unat (hits_of 3 1500000000)"
    by auto
  moreover from t
  have "unat (hits_of 3 1500000000) = unat (3 :: u64) * nat (1500000000 div 1000000000)"
    by simp
  ultimately show ?thesis using v h(2) run_three_final c big long by simp
qed

text \<open>
  Claim C2 says that \<^verbatim>\<open>Stop\<close> never panics on a Burner returned by \<^verbatim>\<open>GenBurner\<close>.
  The code at that input: \<^verbatim>\<open>GenBurner\<close> leaves \<^verbatim>\<open>stopch\<close> nil, so the first call of
  \<^verbatim>\<open>Stop\<close> reaches \<^verbatim>\<open>close(b.stopch)\<close> and panics with "close of nil channel".
\<close>

theorem Stop_after_GenBurner_panics:
  "GenBurner t dialed checkErr numCPU = Inr b \<Longrightarrow> Stop b = Inl Close_of_nil_channel"
  by (auto simp: GenBurner_def Stop_def Stop_chan_def split: if_splits sum.splits option.splits)

theorem Stop_after_GenBurner_panics_witness:
  "GenBurner target_one (Inr (ClientConn ''localhost:50051'')) None 1 = Inr burner_one
   \<and> Stop burner_one = Inl Close_of_nil_channel"
proof -
  have g: "GenBurner target_one (Inr (ClientConn ''localhost:50051'')) None 1 = Inr burner_one"
    by (simp add: GenBurner_def target_one_def burner_one_def)
  from g Stop_after_GenBurner_panics [OF g] show ?thesis by simp
qed

text \<open>
  \<^verbatim>\<open>Stop\<close> is called before the scheduler starts, on a Burner whose \<^verbatim>\<open>stopch\<close> was made. A
  worker is parked at the first \<^verbatim>\<open>select\<close>, so both the send and the receive from
  \<^verbatim>\<open>stopch\<close> can proceed; the \<^verbatim>\<open>select\<close> takes the send, and the stream closes with one
  Result.
\<close>

theorem C3_counterexample:
  "hd run_stop_first = Call_Stop
   \<and> map_option results_closed (run 3 1500000000 (Burn burner_open) run_stop_first) = Some True
   \<and> map_option (length \<circ> results_log) (run 3 1500000000 (Burn burner_open) run_stop_first)
       = Some 1"
  by (simp add: run_stop_first_final final_stop_first_def) (simp add: run_stop_first_def)

text \<open>
  Claim C3, amended: if the stop signal has been raised and no tick has been sent when
  the scheduler reaches a \<^verbatim>\<open>select\<close>, and the \<^verbatim>\<open>select\<close> takes the stop branch, which is
  the only branch it can take when no worker is parked on the tick stream, then the
  scheduler returns without starting a worker, and the run produces no tick and no Result
  from there on; the Result stream is closed only after the tick stream is closed and
  every worker has exited, and the run can go on to close it.
\<close>

theorem stop_before_first_tick:
  assumes r: "run rate du (Burn b) es = Some s"
    and stop: "stop_chan s = Closed_chan" and none: "ticks_log s = []"
    and sel: "step rate du s (Sched_select woke c) = Some s1"
    and c: "c = Stop_case \<or> Parked \<notin> set (workers s)"
  shows "c = Stop_case \<and> loop_exit s1 = Some Stop_observed \<and> workers s1 = workers s
       \<and> (\<forall>es' s2. run rate du s1 es' = Some s2 \<longrightarrow>
             ticks_log s2 = [] \<and> results_log s2 = [] \<and>
             (results_closed s2 \<longrightarrow> ticks_closed s2 \<and> (\<forall>w \<in> set (workers s2). w = Exited)))
       \<and> (\<exists>es' s2. run rate du s1 es' = Some s2 \<and> results_closed s2 \<and> results_log s2 = []
             \<and> crashed s2 = None)"
proof -
  have cs: "c = Stop_case"
  proof (cases c)
    case (Send_tick w)
    from step_Send_tick [OF sel [unfolded Send_tick]]
    have "w < length (workers s)" "workers s ! w = Parked" by simp_all
    then have "Parked \<in> set (workers s)" by (metis nth_mem)
    with c Send_tick show ?thesis by simp
  next
    case Stop_case
    then show ?thesis .
  next
    case Default_case
    from step_Default_case [OF sel [unfolded Default_case]] stop show ?thesis by simp
  qed
  from step_Stop_case [OF sel [unfolded cs]]
  have s1: "s1 = s\<lparr>clock := woke, phase := Deferred_close_ticks, loop_exit := Some Stop_observed\<rparr>"
    by simp
  from step_Sched_select [OF sel] have ph: "crashed s = None" "phase s = Selecting" by simp_all
  with none s1 have q1: "quiet s1" by (simp add: quiet_def)
  have safe: "\<forall>es' s2. run rate du s1 es' = Some s2 \<longrightarrow>
             ticks_log s2 = [] \<and> results_log s2 = [] \<and>
             (results_closed s2 \<longrightarrow> ticks_closed s2 \<and> (\<forall>w \<in> set (workers s2). w = Exited))"
  proof (intro allI impI)
    fix es' s2
    assume r2: "run rate du s1 es' = Some s2"
    from quiet_step q1 r2 have "quiet s2" by (rule run_invariant)
    then have t2: "ticks_log s2 = []" by (simp add: quiet_def)
    from r sel r2 have "run rate du (Burn b) (es @ Sched_select woke c # es') = Some s2"
      by (simp add: run_append)
    note invs = reachable_invariants [OF this]
    from invs(2) t2 have "results_log s2 = []" by (rule in_flight_subset_empty)
    moreover from invs(2) t2 have "in_flight (workers s2) = {#}"
      by (simp add: inv_results_def)
    with invs(1)
    have "results_closed s2 \<longrightarrow> ticks_closed s2 \<and> (\<forall>w \<in> set (workers s2). w = Exited)"
      using gone_without_tick [of "workers s2"] by (auto simp: inv_shutdown_def)
    ultimately show "ticks_log s2 = [] \<and> results_log s2 = [] \<and>
      (results_closed s2 \<longrightarrow> ticks_closed s2 \<and> (\<forall>w \<in> set (workers s2). w = Exited))"
      using t2 by simp
  qed
  note invs = reachable_invariants [OF r]
  from invs(1) ph have opn: "\<not> ticks_closed s" "\<not> results_closed s"
    and wg: "wg s = int (live (workers s))"
    by (simp_all add: inv_shutdown_def)
  from reachable_idle [OF r] none opn have idle: "\<forall>w \<in> set (workers s). idle w"
    by (simp add: inv_idle_def)
  from invs(2) none have rl: "results_log s = []" by (rule in_flight_subset_empty)
  from wg idle have wg': "wg s = int (length (workers s))" by (simp add: idle_live)
  define s2 where "s2 = s1\<lparr>ticks_closed := True,
    workers := replicate (length (workers s1)) Exited, wg := 0, results_closed := True,
    phase := Ended,
    crashed := (case loop_exit s1 of Some (Panicked p) \<Rightarrow> Some p | _ \<Rightarrow> None)\<rparr>"
  have "run rate du s1 (drain (length (workers s1))) = Some s2"
    unfolding s2_def by (rule drain_run) (use s1 ph opn wg' idle in simp_all)
  moreover from s1 rl have "results_closed s2" "results_log s2 = []" "crashed s2 = None"
    by (simp_all add: s2_def)
  ultimately have "\<exists>es' s2. run rate du s1 es' = Some s2 \<and> results_closed s2
      \<and> results_log s2 = [] \<and> crashed s2 = None"
    by blast
  with cs s1 safe show ?thesis by simp
qed

theorem stop_before_first_tick_witness:
  "run 3 1500000000 (Burn burner_open) run_stop_unparked = Some state_stop_unparked
   \<and> stop_chan state_stop_unparked = Closed_chan \<and> ticks_log state_stop_unparked = []
   \<and> Parked \<notin> set (workers state_stop_unparked)
   \<and> step 3 1500000000 state_stop_unparked (Sched_select 4 Stop_case)
       = Some (state_stop_unparked\<lparr>clock := 4, phase := Deferred_close_ticks,
                 loop_exit := Some Stop_observed\<rparr>)
   \<and> run 3 1500000000
        (state_stop_unparked\<lparr>clock := 4, phase := Deferred_close_ticks,
                 loop_exit := Some Stop_observed\<rparr>) run_stop_drain = Some final_stop_unparked
   \<and> results_closed final_stop_unparked \<and> results_log final_stop_unparked = []"
proof -
  have h: "stop_chan state_stop_unparked = Closed_chan" "ticks_log state_stop_unparked = []"
    by (simp_all add: state_stop_unparked_def)
  have p: "Parked \<notin> set (workers state_stop_unparked)"
    by (simp add: state_stop_unparked_def)
  have st: "step 3 1500000000 state_stop_unparked (Sched_select 4 Stop_case)
       = Some (state_stop_unparked\<lparr>clock := 4, phase := Deferred_close_ticks,
                 loop_exit := Some Stop_observed\<rparr>)"
    by (simp add: state_stop_unparked_def model_defs)
  have d: "run 3 1500000000
        (state_stop_unparked\<lparr>clock := 4, phase := Deferred_close_ticks,
                 loop_exit := Some Stop_observed\<rparr>) run_stop_drain = Some final_stop_unparked"
    by (simp add: state_stop_unparked_def run_stop_drain_def final_stop_unparked_def model_defs)
  from stop_before_first_tick [OF run_stop_unparked_state h st disjI2 [OF p]] d
  have "results_log final_stop_unparked = []" by blast
  moreover have "results_closed final_stop_unparked"
    by (simp add: final_stop_unparked_def)
  ultimately show ?thesis
    using run_stop_unparked_state h p st d by simp
qed

text \<open>
  At 3 calls per second the interval is 333333333 ns. In \<open>run_seven\<close> every tick is
  sent at its intended instant; the fourth is stamped 999999999 ns after \<^verbatim>\<open>began\<close> and
  the seventh 1999999998 ns, that is 1 ns and 2 ns before \<open>began + n / R\<close> seconds.
\<close>

theorem C4_counterexample:
  "map_option ticks_log (run 3 3000000000 (Burn burner_one) run_seven)
     = Some [0, 333333333, 666666666, 999999999, 1333333332, 1666666665, 1999999998]
   \<and> next_of 3 0 3 = 999999999 \<and> next_of 3 0 6 = 1999999998
   \<and> (0 + 3 * (1000000000 / 3) :: real) - 999999999 = 1
   \<and> (0 + 6 * (1000000000 / 3) :: real) - 1999999998 = 2"
  by (simp add: run_seven_ticks) (simp add: next_of_def time_Add_def interval_of_def)

text \<open>
  Claim C4, amended: at every \<^verbatim>\<open>select\<close> of a run at rate \<open>R\<close>, with \<open>n\<close> ticks sent so
  far and \<open>n * (10^9 div R) < 2^63\<close>:
  \<^item> the intended instant is \<open>began + n * (10^9 div R)\<close> nanoseconds, computed from the
    fixed start and the counter;
  \<^item> it is earlier than \<open>began + n / R\<close> seconds by \<open>n * (10^9 mod R) / R\<close>
    nanoseconds, which is 0 when \<open>R\<close> divides \<open>10^9\<close> and grows linearly with \<open>n\<close>
    otherwise;
  \<^item> the \<^verbatim>\<open>select\<close> runs at or after the intended instant (the scheduler has slept
    until then), and a tick that it sends is stamped with the later of the intended
    instant and the clock reading taken before the sleep: the intended instant itself
    when the clock was read no later, and never a later instant than the end of the
    sleep; no other branch sends a tick;
  \<^item> every tick sent before is at or after its own intended instant
    \<open>began + k * (10^9 div R)\<close>.
  How late a tick is stamped is the delay of the clock reading, which the scheduler
  does not bound.
\<close>

theorem intended_instant:
  assumes r: "run rate du (Burn b) es = Some s" and ph: "phase s = Selecting"
    and small: "length (ticks_log s) * (1000000000 div unat rate) < 2 ^ 63"
  shows "next_of rate (began s) (done_n s) =
           began s + int (length (ticks_log s)) * int (1000000000 div unat rate)
       \<and> real_of_int (began s) + real (length (ticks_log s)) * (1000000000 / real (unat rate))
             - real_of_int (next_of rate (began s) (done_n s))
           = real (length (ticks_log s)) * real (1000000000 mod unat rate) / real (unat rate)
       \<and> (\<forall>woke c s'. step rate du s (Sched_select woke c) = Some s' \<longrightarrow>
            next_of rate (began s) (done_n s) \<le> woke \<and>
            (case c of
               Send_tick w \<Rightarrow>
                 ticks_log s' = ticks_log s @ [max_time (next_of rate (began s) (done_n s)) (now_r s)]
                 \<and> workers s' ! w = Hitting (max_time (next_of rate (began s) (done_n s)) (now_r s))
                 \<and> next_of rate (began s) (done_n s)
                     \<le> max_time (next_of rate (began s) (done_n s)) (now_r s)
                 \<and> max_time (next_of rate (began s) (done_n s)) (now_r s) \<le> woke
                 \<and> (now_r s \<le> next_of rate (began s) (done_n s) \<longrightarrow>
                      max_time (next_of rate (began s) (done_n s)) (now_r s)
                        = next_of rate (began s) (done_n s))
             | _ \<Rightarrow> ticks_log s' = ticks_log s))
       \<and> (\<forall>k < length (ticks_log s).
            began s + int k * int (1000000000 div unat rate) \<le> ticks_log s ! k)"
proof -
  let ?n = "length (ticks_log s)" and ?r = "unat rate"
  let ?nxt = "next_of rate (began s) (done_n s)"
  from reachable_invariants(4) [OF r] ph
  have rate: "rate \<noteq> 0" and dn: "done_n s = of_nat ?n"
    by (simp_all add: inv_count_def)
  from reachable_invariants(3) [OF r] ph
  have now: "began s \<le> now_r s" "now_r s \<le> clock s"
    by (simp_all add: inv_clock_def)
  from rate have rpos: "0 < ?r" by (simp add: unat_gt_0)
  have nx: "?nxt = began s + int ?n * int (1000000000 div ?r)"
    unfolding dn using small by (rule next_of_exact)
  note dev = ideal_minus_intended [OF rpos, of ?n]
  have sel: "\<forall>woke c s'. step rate du s (Sched_select woke c) = Some s' \<longrightarrow>
            ?nxt \<le> woke \<and>
            (case c of
               Send_tick w \<Rightarrow>
                 ticks_log s' = ticks_log s @ [max_time ?nxt (now_r s)]
                 \<and> workers s' ! w = Hitting (max_time ?nxt (now_r s))
                 \<and> ?nxt \<le> max_time ?nxt (now_r s)
                 \<and> max_time ?nxt (now_r s) \<le> woke
                 \<and> (now_r s \<le> ?nxt \<longrightarrow> max_time ?nxt (now_r s) = ?nxt)
             | _ \<Rightarrow> ticks_log s' = ticks_log s)"
  proof (intro allI impI)
    fix woke c s'
    assume st: "step rate du s (Sched_select woke c) = Some s'"
    from step_Sched_select [OF st] have w: "clock s \<le> woke"
      "\<not> woke < now_r s + time_Sub ?nxt (now_r s)"
      by simp_all
    from now w(1) have nw: "now_r s \<le> woke" by simp
    from nw w(2) next_of_near [OF now(1)] have slept: "?nxt \<le> woke"
      by (rule woke_after_intended)
    have br: "case c of
               Send_tick w \<Rightarrow>
                 ticks_log s' = ticks_log s @ [max_time ?nxt (now_r s)]
                 \<and> workers s' ! w = Hitting (max_time ?nxt (now_r s))
                 \<and> ?nxt \<le> max_time ?nxt (now_r s)
                 \<and> max_time ?nxt (now_r s) \<le> woke
                 \<and> (now_r s \<le> ?nxt \<longrightarrow> max_time ?nxt (now_r s) = ?nxt)
             | _ \<Rightarrow> ticks_log s' = ticks_log s"
    proof (cases c)
      case (Send_tick w)
      from step_Send_tick [OF st [unfolded Send_tick]]
      have "w < length (workers s)"
        and "ticks_log s' = ticks_log s @ [max_time ?nxt (now_r s)]"
        and "workers s' = (workers s)[w := Hitting (max_time ?nxt (now_r s))]"
        by auto
      moreover from slept nw have "max_time ?nxt (now_r s) \<le> woke"
        by (simp add: max_time_def)
      moreover have "?nxt \<le> max_time ?nxt (now_r s)"
        "now_r s \<le> ?nxt \<longrightarrow> max_time ?nxt (now_r s) = ?nxt"
        by (simp_all add: max_time_def)
      ultimately show ?thesis using Send_tick by simp
    next
      case Stop_case
      from step_Stop_case [OF st [unfolded Stop_case]] Stop_case show ?thesis by simp
    next
      case Default_case
      from step_Default_case [OF st [unfolded Default_case]] Default_case show ?thesis by simp
    qed
    with slept show "?nxt \<le> woke \<and>
            (case c of
               Send_tick w \<Rightarrow>
                 ticks_log s' = ticks_log s @ [max_time ?nxt (now_r s)]
                 \<and> workers s' ! w = Hitting (max_time ?nxt (now_r s))
                 \<and> ?nxt \<le> max_time ?nxt (now_r s)
                 \<and> max_time ?nxt (now_r s) \<le> woke
                 \<and> (now_r s \<le> ?nxt \<longrightarrow> max_time ?nxt (now_r s) = ?nxt)
             | _ \<Rightarrow> ticks_log s' = ticks_log s)"
      by simp
  qed
  have old: "\<forall>k < ?n. began s + int k * int (1000000000 div ?r) \<le> ticks_log s ! k"
  proof (intro allI impI)
    fix k
    assume k: "k < ?n"
    then have "k * (1000000000 div ?r) \<le> ?n * (1000000000 div ?r)"
      by (intro mult_right_mono) simp_all
    from this small have "k * (1000000000 div ?r) < 2 ^ 63" by (rule le_less_trans)
    then have "next_of rate (began s) (of_nat k) = began s + int k * int (1000000000 div ?r)"
      by (rule next_of_exact)
    moreover from reachable_sched [OF r] k
    have "next_of rate (began s) (of_nat k) \<le> ticks_log s ! k"
      by (simp add: inv_sched_def)
    ultimately show "began s + int k * int (1000000000 div ?r) \<le> ticks_log s ! k" by simp
  qed
  from nx dev have "real_of_int (began s) + real ?n * (1000000000 / real ?r) - real_of_int ?nxt
      = real ?n * real (1000000000 mod ?r) / real ?r"
    by simp
  with nx sel old show ?thesis by blast
qed

theorem intended_instant_witness:
  "run 3 1500000000 (Burn burner_one) run_selecting = Some state_selecting
   \<and> phase state_selecting = Selecting
   \<and> next_of 3 (began state_selecting) (done_n state_selecting) = 333333333
   \<and> real_of_int (began state_selecting)
       + real (length (ticks_log state_selecting)) * (1000000000 / real (unat (3 :: u64)))
       - real_of_int (next_of 3 (began state_selecting) (done_n state_selecting)) = 1 / 3
   \<and> map_option ticks_log
        (step 3 1500000000 state_selecting (Sched_select 333333340 (Send_tick 0)))
       = Some [0, 333333333]
   \<and> step 3 1500000000 state_selecting (Sched_select 333333332 (Send_tick 0)) = None"
proof -
  have p: "phase state_selecting = Selecting"
    and b: "length (ticks_log state_selecting) * (1000000000 div unat (3 :: u64)) < 2 ^ 63"
    by (simp_all add: state_selecting_def)
  have st: "map_option ticks_log
        (step 3 1500000000 state_selecting (Sched_select 333333340 (Send_tick 0)))
       = Some [0, 333333333]"
    "step 3 1500000000 state_selecting (Sched_select 333333332 (Send_tick 0)) = None"
    by (simp_all add: state_selecting_def model_defs)
  from intended_instant [OF run_selecting_state p b]
  have "next_of 3 (began state_selecting) (done_n state_selecting) =
           began state_selecting + int (length (ticks_log state_selecting))
             * int (1000000000 div unat (3 :: u64))"
    and "real_of_int (began state_selecting)
       + real (length (ticks_log state_selecting)) * (1000000000 / real (unat (3 :: u64)))
       - real_of_int (next_of 3 (began state_selecting) (done_n state_selecting))
       = real (length (ticks_log state_selecting)) * real (1000000000 mod unat (3 :: u64))
           / real (unat (3 :: u64))"
    by blast+
  with run_selecting_state p st show ?thesis by (simp add: state_selecting_def)
qed

text \<open>
  At rate 0 the product \<^verbatim>\<open>rate * uint64(du.Seconds())\<close> is 0, and the run ends without the
  cancellation branch: \<^verbatim>\<open>1e9 / rate\<close> panics, the deferred calls run and the program
  crashes, with \<^verbatim>\<open>stopch\<close> never closed.
\<close>

theorem C5_counterexample:
  "hits_of 0 500000000 = 0
   \<and> map_option loop_exit (run 0 500000000 (Burn burner_one) run_rate_zero)
       = Some (Some (Panicked Divide_by_zero))
   \<and> map_option crashed (run 0 500000000 (Burn burner_one) run_rate_zero)
       = Some (Some Divide_by_zero)
   \<and> map_option stop_chan (run 0 500000000 (Burn burner_one) run_rate_zero) = Some Nil_chan"
  by (simp add: run_rate_zero_final final_rate_zero_def hits_of_def)

text \<open>
  Claim C5, amended: for a rate other than 0, if \<^verbatim>\<open>hits\<close>, the 64-bit product
  \<^verbatim>\<open>rate * uint64(du.Seconds())\<close>, is 0 (as for every duration of less than one second,
  \<open>hits_of_subsecond\<close>, and for products that wrap around to 0, \<open>hits_of_wraps\<close>)
  and the scheduler has left its loop after fewer than \<open>2^64\<close> ticks, then it left
  through the cancellation branch, with the stop signal raised. (After \<open>2^64\<close> ticks the
  64-bit counter is 0 again and equals \<^verbatim>\<open>hits\<close>: \<open>hit_count_after_wrap\<close>. A panic in a
  worker or in \<^verbatim>\<open>Stop\<close> ends the program with the scheduler still in its loop.)
\<close>

theorem zero_hits_only_stop:
  assumes "run rate du (Burn b) es = Some s"
    and "rate \<noteq> 0" and "hits_of rate du = 0"
    and "length (ticks_log s) < 2 ^ 64"
    and "\<not> in_loop (phase s)" and "phase s \<noteq> Sched_init"
  shows "loop_exit s = Some Stop_observed \<and> stop_chan s = Closed_chan"
proof -
  note cnt = reachable_invariants(4) [OF assms(1)]
  from cnt assms(5,6) obtain x where x: "loop_exit s = Some x"
    by (auto simp: inv_count_def)
  show ?thesis
  proof (cases x)
    case Hits_reached
    with x cnt have "length (ticks_log s) = hits_bound rate du"
      by (simp add: inv_count_def)
    with assms(3,4) show ?thesis by (simp add: hits_bound_def)
  next
    case Stop_observed
    with x cnt show ?thesis by (simp add: inv_count_def)
  next
    case (Panicked p)
    with x cnt assms(2) show ?thesis by (simp add: inv_count_def)
  qed
qed

theorem zero_hits_only_stop_witness:
  "run 10 500000000 (Burn burner_open) run_half_second = Some state_half_second
   \<and> (10 :: u64) \<noteq> 0 \<and> hits_of 10 500000000 = 0
   \<and> run 549755813888 33554431999999999 (Burn burner_open) run_half_second
       = Some state_half_second
   \<and> (549755813888 :: u64) \<noteq> 0 \<and> hits_of 549755813888 33554431999999999 = 0
   \<and> length (ticks_log state_half_second) < 2 ^ 64
   \<and> \<not> in_loop (phase state_half_second) \<and> phase state_half_second \<noteq> Sched_init
   \<and> loop_exit state_half_second = Some Stop_observed
   \<and> stop_chan state_half_second = Closed_chan"
proof -
  have h: "(10 :: u64) \<noteq> 0" "hits_of 10 500000000 = 0"
    "length (ticks_log state_half_second) < 2 ^ 64"
    "\<not> in_loop (phase state_half_second)" "phase state_half_second \<noteq> Sched_init"
    by (simp_all add: state_half_second_def hits_of_subsecond)
  have w: "(549755813888 :: u64) \<noteq> 0" "hits_of 549755813888 33554431999999999 = 0"
    by (simp_all add: hits_of_wraps)
  from zero_hits_only_stop [OF run_half_second_state h]
    zero_hits_only_stop [OF run_wrap_state w h(3-5)] run_half_second_state run_wrap_state h w
  show ?thesis by simp
qed



text \<open>
  Claim C7 says that every tick consumed by a worker yields exactly one Result on the
  Result stream. The code at two inputs, both on the Burner that \<^verbatim>\<open>GenBurner\<close> returns,
  at one call per second for one second:
  \<^item> \<open>run_panic\<close>: \<^verbatim>\<open>hit\<close> passes a nil \<^verbatim>\<open>CallOption\<close> to \<^verbatim>\<open>Conn.Invoke\<close>, and the
    invocation panics. The worker has consumed the tick 0; its deferred
    \<^verbatim>\<open>workers.Done()\<close> runs, so the scheduler closes the Result stream; no Result was
    sent, and the program ends with the panic.
  \<^item> \<open>run_stop_in_flight\<close>: \<^verbatim>\<open>Stop\<close> is called while the worker is inside \<^verbatim>\<open>hit\<close> with
    the tick 0; \<^verbatim>\<open>close\<close> of the nil \<^verbatim>\<open>stopch\<close> panics and the program ends, no Result
    sent.
  (When the invocation returns and nothing panics, the tick is answered:
  \<open>tick_accounting\<close>.)
\<close>

theorem consumed_tick_without_Result:
  "GenBurner target_one (Inr (ClientConn ''localhost:50051'')) None 1 = Inr burner_one
   \<and> run 1 1000000000 (Burn burner_one) run_panic = Some final_panic
   \<and> ticks_log final_panic = [0] \<and> workers final_panic = [Panicking 0]
   \<and> results_log final_panic = [] \<and> results_closed final_panic
   \<and> crashed final_panic = Some Nil_dereference
   \<and> run 1 1000000000 (Burn burner_one) run_stop_in_flight = Some final_stop_in_flight
   \<and> ticks_log final_stop_in_flight = [0] \<and> workers final_stop_in_flight = [Hitting 0]
   \<and> results_log final_stop_in_flight = []
   \<and> crashed final_stop_in_flight = Some Close_of_nil_channel"
  by (simp add: run_panic_final run_stop_in_flight_final)
    (simp add: final_panic_def final_stop_in_flight_def GenBurner_def target_one_def
      burner_one_def)

text \<open>
  Claim C8: when \<^verbatim>\<open>hit\<close> returns at the clock reading \<open>t\<close> for the tick \<open>tm\<close>, with or
  without an error, the Result has \<^verbatim>\<open>Latency = time.Since(tm)\<close>: the difference \<open>t - tm\<close>
  (up to the greatest \<^verbatim>\<open>Duration\<close>, about 292 years), measured from the tick's own
  timestamp, and not negative.
\<close>

theorem Latency_from_tick:
  assumes "run rate du (Burn b) es = Some s"
    and "w < length (workers s)" and "workers s ! w = Hitting tm"
    and "step rate du s (Worker_hit_done w invoked t) = Some s'"
  shows "workers s' ! w = Sending (hit tm invoked t)
       \<and> Timestamp (hit tm invoked t) = tm
       \<and> Latency (hit tm invoked t) = time_Sub t tm
       \<and> 0 \<le> Latency (hit tm invoked t)
       \<and> (t - tm \<le> maxDuration \<longrightarrow> Latency (hit tm invoked t) = t - tm)"
proof -
  from reachable_invariants(3) [OF assms(1)]
  have "ticks_below (ticks_log s) (workers s) (clock s)"
    by (simp add: inv_clock_def)
  from ticks_below_Hitting [OF this assms(2,3)] have tm: "tm \<le> clock s" .
  from step_Worker_hit_done [OF assms(4)] assms(3)
  have t: "clock s \<le> t"
    and s': "s' = s\<lparr>workers := (workers s)[w := Sending (hit tm invoked t)], clock := t\<rparr>"
    by auto
  from tm t have "0 \<le> t - tm" by simp
  then have "0 \<le> time_Sub t tm" "t - tm \<le> maxDuration \<longrightarrow> time_Sub t tm = t - tm"
    by (auto simp: time_Sub_def maxDuration_def minDuration_def)
  with s' assms(2) show ?thesis
    by (simp add: hit_Timestamp hit_Latency)
qed

theorem Latency_from_tick_witness:
  "run 3 1500000000 (Burn burner_one) run_hitting = Some state_hitting
   \<and> workers state_hitting ! 0 = Hitting 0
   \<and> step 3 1500000000 state_hitting (Worker_hit_done 0 (Some ''unavailable'') 7)
       = Some (state_hitting\<lparr>workers := [Sending (hit 0 (Some ''unavailable'') 7)], clock := 7\<rparr>)
   \<and> Latency (hit 0 (Some ''unavailable'') 7) = 7 - 0
   \<and> 0 \<le> Latency (hit 0 (Some ''unavailable'') 7)"
proof -
  have w: "0 < length (workers state_hitting)" "workers state_hitting ! 0 = Hitting 0"
    by (simp_all add: state_hitting_def)
  have st: "step 3 1500000000 state_hitting (Worker_hit_done 0 (Some ''unavailable'') 7)
       = Some (state_hitting\<lparr>workers := [Sending (hit 0 (Some ''unavailable'') 7)], clock := 7\<rparr>)"
    by (simp add: state_hitting_def step_def worker_hit_done_def)
  from Latency_from_tick [OF run_hitting_state w st] run_hitting_state w st
  show ?thesis by (simp add: maxDuration_def)
qed

text \<open>
  Claim C9: when the invocation of a worker fails with the message \<open>msg\<close>, the step
  succeeds without a panic, the scheduler is where it was, the worker holds a Result with
  \<^verbatim>\<open>Error = msg\<close> and the timestamp of its tick; the caller then receives that Result and
  the worker is back at the top of its loop.
\<close>

theorem failed_invocation_is_a_Result:
  assumes "run rate du (Burn b) es = Some s"
    and "w < length (workers s)" and "workers s ! w = Hitting tm"
    and "crashed s = None" and "clock s \<le> t"
  shows "\<exists>s' s''. step rate du s (Worker_hit_done w (Some msg) t) = Some s'
       \<and> crashed s' = None \<and> phase s' = phase s \<and> done_n s' = done_n s
       \<and> loop_exit s' = loop_exit s \<and> results_log s' = results_log s
       \<and> workers s' = (workers s)[w := Sending (hit tm (Some msg) t)]
       \<and> Error (hit tm (Some msg) t) = msg \<and> Timestamp (hit tm (Some msg) t) = tm
       \<and> step rate du s' (Worker_deliver w) = Some s''
       \<and> crashed s'' = None \<and> phase s'' = phase s
       \<and> results_log s'' = results_log s @ [hit tm (Some msg) t]
       \<and> workers s'' = (workers s)[w := At_range]"
proof -
  define s' where "s' = s\<lparr>workers := (workers s)[w := Sending (hit tm (Some msg) t)], clock := t\<rparr>"
  define s'' where "s'' = s'\<lparr>workers := (workers s')[w := At_range],
    results_log := results_log s' @ [hit tm (Some msg) t]\<rparr>"
  from assms(2-5) have 1: "step rate du s (Worker_hit_done w (Some msg) t) = Some s'"
    by (simp add: step_def worker_hit_done_def s'_def)
  from reachable_invariants(1) [OF assms(1)] 1 have "inv_shutdown s'"
    by (rule inv_shutdown_step)
  then have "\<not> results_closed s'"
    by (rule results_open_if_alive [where w = w]) (use assms(2) in \<open>simp_all add: s'_def\<close>)
  with assms(2,4) have 2: "step rate du s' (Worker_deliver w) = Some s''"
    by (simp add: step_def worker_deliver_def s'_def s''_def)
  from assms(2,4) have "crashed s' = None \<and> phase s' = phase s \<and> done_n s' = done_n s
       \<and> loop_exit s' = loop_exit s \<and> results_log s' = results_log s
       \<and> workers s' = (workers s)[w := Sending (hit tm (Some msg) t)]
       \<and> Error (hit tm (Some msg) t) = msg \<and> Timestamp (hit tm (Some msg) t) = tm
       \<and> crashed s'' = None \<and> phase s'' = phase s
       \<and> results_log s'' = results_log s @ [hit tm (Some msg) t]
       \<and> workers s'' = (workers s)[w := At_range]"
    by (simp add: s'_def s''_def hit_Error hit_Timestamp)
  with 1 2 show ?thesis by blast
qed

theorem failed_invocation_is_a_Result_witness:
  "run 3 1500000000 (Burn burner_one) run_hitting = Some state_hitting
   \<and> workers state_hitting ! 0 = Hitting 0 \<and> crashed state_hitting = None
   \<and> (\<exists>s' s''. step 3 1500000000 state_hitting (Worker_hit_done 0 (Some ''unavailable'') 7) = Some s'
        \<and> crashed s' = None
        \<and> step 3 1500000000 s' (Worker_deliver 0) = Some s''
        \<and> crashed s'' = None
        \<and> results_log s'' = [\<lparr>Timestamp = 0, Latency = 7, Error = ''unavailable''\<rparr>])"
proof -
  have w: "0 < length (workers state_hitting)" "workers state_hitting ! 0 = Hitting 0"
    "crashed state_hitting = None" "clock state_hitting \<le> 7"
    by (simp_all add: state_hitting_def)
  have h: "hit 0 (Some ''unavailable'') 7 = \<lparr>Timestamp = 0, Latency = 7, Error = ''unavailable''\<rparr>"
    by (simp add: hit_def time_Sub_def maxDuration_def minDuration_def)
  have r: "results_log state_hitting = []" by (simp add: state_hitting_def)
  from failed_invocation_is_a_Result [OF run_hitting_state w, of "''unavailable''"]
  obtain s' s'' where "step 3 1500000000 state_hitting (Worker_hit_done 0 (Some ''unavailable'') 7) = Some s'"
    "crashed s' = None" "step 3 1500000000 s' (Worker_deliver 0) = Some s''" "crashed s'' = None"
    "results_log s'' = results_log state_hitting @ [hit 0 (Some ''unavailable'') 7]"
    by blast
  with run_hitting_state w h r show ?thesis by auto
qed

text \<open>
  Claim C10: in every run, the timestamps sent on the tick stream are non-decreasing in
  the order of emission. (The clock is monotonic and \<^verbatim>\<open>time.Sleep\<close> sleeps at least the
  duration asked for: both are conditions of the steps \<open>sched_now\<close> and
  \<open>sched_select\<close>.)
\<close>

theorem ticks_nondecreasing:
  "run rate du (Burn b) es = Some s \<Longrightarrow> sorted (ticks_log s)"
  using reachable_invariants(3) [of rate du b es s] by (simp add: inv_clock_def)

theorem ticks_nondecreasing_witness:
  "run 3 1500000000 (Burn burner_one) run_three = Some final_three
   \<and> ticks_log final_three = [0, 333333333, 666666666]
   \<and> sorted (ticks_log final_three)"
  using ticks_nondecreasing [OF run_three_final] run_three_final
  by (simp add: final_three_def)

end
